theory Spec2Isabelle
  imports Main "HOL-Library.Word" "HOL-Library.Multiset" "HOL-Library.List_Lexorder"
begin

section \<open>Data model of \<^verbatim>\<open>python/lib.c\<close>\<close>

text \<open>
  Bytes are 8-bit words. A pointer is the address it holds (a natural number), a
  \<^verbatim>\<open>size_t\<close> value is a natural number below \<open>2 ^ 64\<close>; where the source subtracts
  or adds with wrap-around the reduction modulo \<open>2 ^ 64\<close> is written out. The
  elements of the offset arrays are machine words of the width the source stores.
\<close>

type_synonym byte = "8 word"

text \<open>
  The ways a call can end other than by returning its value: the two Python exceptions
  the modelled functions raise, a read or write outside an array, and a division by zero.
\<close>

datatype error = MemoryError | TypeError | MemoryFault | DivisionByZero

text \<open>\<^verbatim>\<open>sz_string_view_t\<close>: a start pointer and a length.\<close>

record sz_string_view_t =
  sv_start :: nat
  sv_length :: nat

text \<open>The bytes a view denotes in the memory \<open>mem\<close> (an address-to-byte function).\<close>

definition view_bytes :: "(nat \<Rightarrow> byte) \<Rightarrow> sz_string_view_t \<Rightarrow> byte list" where
  "view_bytes mem v = map mem [sv_start v ..< sv_start v + sv_length v]"

text \<open>
  \<^verbatim>\<open>struct consecutive_slices_32bit_t\<close> and \<^verbatim>\<open>struct consecutive_slices_64bit_t\<close>
  differ in the element type of \<^verbatim>\<open>end_offsets\<close> only, which is the parameter here.
  \<^verbatim>\<open>parent\<close> is the address of the owning Python object.
\<close>

record 'o consecutive_slices_t =
  c_count :: nat
  c_separator_length :: nat
  c_parent :: nat
  c_start :: nat
  c_end_offsets :: "'o list"

text \<open>\<^verbatim>\<open>struct reordered_slices_t\<close>.\<close>

record reordered_slices_t =
  r_count :: nat
  r_parent :: nat
  r_parts :: "sz_string_view_t list"

text \<open>
  \<^verbatim>\<open>Strs\<close>: the layout tag with the member of the union it selects. No member belongs
  to \<^verbatim>\<open>STRS_MULTI_SOURCE\<close>; the functions that accept this tag
  (\<^verbatim>\<open>Strs_sort_\<close>, \<^verbatim>\<open>Strs_shuffle\<close>) read the union through its
  \<^verbatim>\<open>reordered\<close> member, so that is the payload the tag carries here.
\<close>

datatype Strs =
    STRS_CONSECUTIVE_32 "32 word consecutive_slices_t"
  | STRS_CONSECUTIVE_64 "64 word consecutive_slices_t"
  | STRS_REORDERED reordered_slices_t
  | STRS_MULTI_SOURCE reordered_slices_t

text \<open>
  The reference count of the parent object and the number of live heap blocks and
  objects, as far as the modelled functions change them.
\<close>

record resources =
  parent_refcnt :: nat
  live_buffers :: nat
  live_objects :: nat

definition UINT32_MAX :: nat where
  "UINT32_MAX = 2 ^ 32 - 1"

definition PY_SSIZE_T_MAX :: int where
  "PY_SSIZE_T_MAX = 2 ^ 63 - 1"

text \<open>A sequence of fallible steps stops at the first failure.\<close>

fun collect :: "(error + 'a) list \<Rightarrow> error + 'a list" where
  "collect [] = Inr []"
| "collect (x # xs) =
     (case x of
        Inl e \<Rightarrow> Inl e
      | Inr v \<Rightarrow> (case collect xs of Inl e \<Rightarrow> Inl e | Inr vs \<Rightarrow> Inr (v # vs)))"

section \<open>Accessors and layout conversion\<close>

text \<open>
  \<^verbatim>\<open>str_at_offset_consecutive_32bit\<close> and \<^verbatim>\<open>str_at_offset_consecutive_64bit\<close>
  have one body up to the offset type. The difference of the two offsets is taken at
  the width of the offsets, then the separator is subtracted at the width of
  \<^verbatim>\<open>size_t\<close>. Reading \<^verbatim>\<open>end_offsets\<close> outside the array is a fault.
\<close>

definition str_at_offset_consecutive ::
  "('w::len) word consecutive_slices_t \<Rightarrow> nat \<Rightarrow> nat \<Rightarrow> error + nat \<times> sz_string_view_t"
where
  "str_at_offset_consecutive c i cnt =
     (if (i \<noteq> 0 \<and> length (c_end_offsets c) \<le> i - 1) \<or> length (c_end_offsets c) \<le> i
      then Inl MemoryFault
      else
        let start_offset = (if i = 0 then 0 else c_end_offsets c ! (i - 1));
            end_offset = c_end_offsets c ! i
        in Inr (c_parent c,
             \<lparr>sv_start = c_start c + unat start_offset,
              sv_length = unat ((ucast (end_offset - start_offset) :: 64 word)
                 - word_of_nat (c_separator_length c) * (if i + 1 \<noteq> cnt then 1 else 0))\<rparr>))"

definition str_at_offset_consecutive_32bit ::
  "32 word consecutive_slices_t \<Rightarrow> nat \<Rightarrow> nat \<Rightarrow> error + nat \<times> sz_string_view_t"
where
  "str_at_offset_consecutive_32bit c i cnt = str_at_offset_consecutive c i cnt"

definition str_at_offset_consecutive_64bit ::
  "64 word consecutive_slices_t \<Rightarrow> nat \<Rightarrow> nat \<Rightarrow> error + nat \<times> sz_string_view_t"
where
  "str_at_offset_consecutive_64bit c i cnt = str_at_offset_consecutive c i cnt"

definition str_at_offset_reordered ::
  "reordered_slices_t \<Rightarrow> nat \<Rightarrow> nat \<Rightarrow> error + nat \<times> sz_string_view_t"
where
  "str_at_offset_reordered r i cnt =
     (if length (r_parts r) \<le> i then Inl MemoryFault
      else Inr (r_parent r,
             \<lparr>sv_start = sv_start (r_parts r ! i), sv_length = sv_length (r_parts r ! i)\<rparr>))"

text \<open>\<^verbatim>\<open>str_at_offset_getter\<close>: the accessor of the layout, bound to the object.\<close>

definition str_at_offset_getter ::
  "Strs \<Rightarrow> error + (nat \<Rightarrow> nat \<Rightarrow> error + nat \<times> sz_string_view_t)"
where
  "str_at_offset_getter strs =
     (case strs of
        STRS_CONSECUTIVE_32 c \<Rightarrow> Inr (str_at_offset_consecutive_32bit c)
      | STRS_CONSECUTIVE_64 c \<Rightarrow> Inr (str_at_offset_consecutive_64bit c)
      | STRS_REORDERED r \<Rightarrow> Inr (str_at_offset_reordered r)
      | STRS_MULTI_SOURCE r \<Rightarrow> Inl TypeError)"

definition Strs_len :: "Strs \<Rightarrow> nat" where
  "Strs_len self =
     (case self of
        STRS_CONSECUTIVE_32 c \<Rightarrow> c_count c
      | STRS_CONSECUTIVE_64 c \<Rightarrow> c_count c
      | STRS_REORDERED r \<Rightarrow> r_count r
      | STRS_MULTI_SOURCE r \<Rightarrow> 0)"

text \<open>
  The loop of \<^verbatim>\<open>prepare_strings_for_reordering\<close> that fills \<^verbatim>\<open>new_parts\<close>
  through the getter.
\<close>

definition populate ::
  "(nat \<Rightarrow> nat \<Rightarrow> error + nat \<times> sz_string_view_t) \<Rightarrow> nat \<Rightarrow> error + sz_string_view_t list"
where
  "populate getter cnt =
     collect (map (\<lambda>i. case getter i cnt of Inl e \<Rightarrow> Inl e | Inr (p, v) \<Rightarrow> Inr v) [0..<cnt])"

text \<open>
  \<^verbatim>\<open>prepare_strings_for_reordering\<close>. \<open>malloc n\<close> is the pointer an allocation of
  \<open>n\<close> bytes returns, \<open>0\<close> for \<^verbatim>\<open>NULL\<close>; \<^verbatim>\<open>sizeof(sz_string_view_t)\<close> is 16. The
  result pairs what the call returns (\<open>Inr ()\<close> for 1, \<open>Inl\<close> the exception set for 0)
  with the object after the call.
\<close>

definition convert_consecutive ::
  "(nat \<Rightarrow> nat) \<Rightarrow> Strs \<Rightarrow> nat \<Rightarrow> nat
     \<Rightarrow> (nat \<Rightarrow> nat \<Rightarrow> error + nat \<times> sz_string_view_t) \<Rightarrow> (error + unit) \<times> Strs"
where
  "convert_consecutive malloc strs cnt prnt getter =
     (if malloc (cnt * 16) = 0 then (Inl MemoryError, strs)
      else case populate getter cnt of
          Inl e \<Rightarrow> (Inl e, strs)
        | Inr new_parts \<Rightarrow>
            (Inr (), STRS_REORDERED \<lparr>r_count = cnt, r_parent = prnt, r_parts = new_parts\<rparr>))"

definition prepare_strings_for_reordering :: "(nat \<Rightarrow> nat) \<Rightarrow> Strs \<Rightarrow> (error + unit) \<times> Strs" where
  "prepare_strings_for_reordering malloc strs =
     (case strs of
        STRS_CONSECUTIVE_32 c \<Rightarrow>
          convert_consecutive malloc strs (c_count c) (c_parent c) (str_at_offset_consecutive_32bit c)
      | STRS_CONSECUTIVE_64 c \<Rightarrow>
          convert_consecutive malloc strs (c_count c) (c_parent c) (str_at_offset_consecutive_64bit c)
      | STRS_REORDERED r \<Rightarrow> (Inr (), strs)
      | STRS_MULTI_SOURCE r \<Rightarrow> (Inr (), strs))"

section \<open>Sub-range extraction\<close>

text \<open>
  The slice branch of \<^verbatim>\<open>Strs_subscript\<close>, after \<^verbatim>\<open>PySlice_AdjustIndices\<close> has
  produced \<open>start\<close> and \<open>stop\<close> and the step has been found to be 1. The macro
  \<^verbatim>\<open>consecutive_logic\<close> is one body for both offset widths. It calls the accessor
  for the parent and the start pointer of part \<open>start\<close> and never uses the length it
  gets in \<^verbatim>\<open>first_length\<close>; of the accessor's body the two assignments that reach
  the result are written out here. The accessor's read of \<^verbatim>\<open>end_offsets[start]\<close>
  feeds that unused length only; for \<open>start = count\<close> it is one element past the
  array, and since nothing depends on the value it is not a fault of the model. The read
  of \<^verbatim>\<open>end_offsets[start - 1]\<close> gives the start pointer and is a fault outside the
  array. The test \<^verbatim>\<open>to->end_offsets == NULL && PyErr_NoMemory()\<close> is never true,
  because \<^verbatim>\<open>PyErr_NoMemory\<close> returns \<^verbatim>\<open>NULL\<close>: after a failed allocation the
  copy loop runs on the null array, which faults as soon as it writes. Creating the Python
  object is the host's business and taken to succeed.
\<close>

definition consecutive_logic ::
  "(nat \<Rightarrow> nat) \<Rightarrow> nat \<Rightarrow> ('w::len) word consecutive_slices_t \<Rightarrow> nat \<Rightarrow> nat \<Rightarrow> nat
     \<Rightarrow> error + 'w word consecutive_slices_t"
where
  "consecutive_logic malloc index_size from cnt start stop =
     (let to_count = (stop + 2 ^ 64 - start) mod 2 ^ 64 in
      if start \<noteq> 0 \<and> length (c_end_offsets from) \<le> start - 1 then Inl MemoryFault
      else
        let start_offset = (if start = 0 then 0 else c_end_offsets from ! (start - 1));
            to_start = c_start from + unat start_offset;
            first_offset = (word_of_nat (to_start - c_start from) :: 'w word)
        in if to_count \<noteq> 0 \<and> malloc (index_size * to_count) = 0 then Inl MemoryFault
           else if length (c_end_offsets from) < to_count + start then Inl MemoryFault
           else Inr \<lparr>c_count = to_count,
                     c_separator_length = c_separator_length from,
                     c_parent = c_parent from,
                     c_start = to_start,
                     c_end_offsets =
                       map (\<lambda>i. c_end_offsets from ! (i + start) - first_offset) [0..<to_count]\<rparr>)"

definition Strs_subscript :: "(nat \<Rightarrow> nat) \<Rightarrow> Strs \<Rightarrow> nat \<Rightarrow> nat \<Rightarrow> error + Strs" where
  "Strs_subscript malloc self start stop =
     (let cnt = Strs_len self in
      case self of
        STRS_CONSECUTIVE_32 from \<Rightarrow>
          (case consecutive_logic malloc 4 from cnt start stop of
             Inl e \<Rightarrow> Inl e | Inr to \<Rightarrow> Inr (STRS_CONSECUTIVE_32 to))
      | STRS_CONSECUTIVE_64 from \<Rightarrow>
          (case consecutive_logic malloc 8 from cnt start stop of
             Inl e \<Rightarrow> Inl e | Inr to \<Rightarrow> Inr (STRS_CONSECUTIVE_64 to))
      | STRS_REORDERED from \<Rightarrow>
          (let to_count = (stop + 2 ^ 64 - start) mod 2 ^ 64 in
           if to_count \<noteq> 0 \<and> malloc (16 * to_count) = 0 then Inl MemoryFault
           else if length (r_parts from) < start + to_count then Inl MemoryFault
           else Inr (STRS_REORDERED
                  \<lparr>r_count = to_count, r_parent = r_parent from,
                   r_parts = take to_count (drop start (r_parts from))\<rparr>))
      | STRS_MULTI_SOURCE from \<Rightarrow> Inl TypeError)"

section \<open>Splitting\<close>

text \<open>
  Modelled from the spec: \<^verbatim>\<open>sz_find\<close> is declared in \<^verbatim>\<open>stringzilla/stringzilla.h\<close>,
  which is not among the sources. The spec gives \<open>find(haystack, needle)\<close> as the offset
  of the needle in the haystack or not-found; this is the first offset at which the
  needle occurs, and not-found for an empty needle.
\<close>

fun sz_find :: "byte list \<Rightarrow> byte list \<Rightarrow> nat option" where
  "sz_find [] needle = None"
| "sz_find (h # hs) needle =
     (if needle = [] then None
      else if take (length needle) (h # hs) = needle then Some 0
      else map_option Suc (sz_find hs needle))"

text \<open>
  The loop of \<^verbatim>\<open>Str_split_\<close>. \<open>offsets_endings\<close> is \<open>None\<close> while the pointer is
  \<^verbatim>\<open>NULL\<close>, else the offsets written so far; \<^verbatim>\<open>offsets_count\<close> is their number.
  \<open>maxsplit\<close> is the bound after its conversion to \<^verbatim>\<open>size_t\<close> in the comparison.
  The offset is stored at the width \<open>'w\<close> of the array. \<open>new_offsets\<close> is what
  \<^verbatim>\<open>realloc\<close> returns: null, or the block with the offsets written so far. On a
  failed \<^verbatim>\<open>realloc\<close> the old block, if any, is freed; when the pointer is null
  after the growth step the result object is released and the call fails.
\<close>

function split_loop ::
  "(nat \<Rightarrow> nat) \<Rightarrow> byte list \<Rightarrow> byte list \<Rightarrow> nat \<Rightarrow> nat \<Rightarrow> nat \<Rightarrow> ('w::len) word list option
     \<Rightarrow> nat \<Rightarrow> resources \<Rightarrow> (error + 'w word list option) \<times> resources"
where
  "split_loop malloc text separator maxsplit bytes_per_offset last_start offsets_endings
       offsets_capacity res =
     (let offsets_count = (case offsets_endings of None \<Rightarrow> 0 | Some os \<Rightarrow> length os) in
      if last_start \<le> length text \<and> offsets_count < maxsplit then
        let match = sz_find (drop last_start text) separator;
            offset_in_remaining =
              (case match of Some m \<Rightarrow> m | None \<Rightarrow> length text - last_start);
            grow = (offsets_capacity \<le> offsets_count);
            new_capacity = (if grow then (offsets_capacity + 1) * 2 else offsets_capacity);
            new_offsets =
              (if malloc (new_capacity * bytes_per_offset) = 0 then None
               else Some (case offsets_endings of None \<Rightarrow> [] | Some os \<Rightarrow> os));
            res1 =
              (if grow then
                 (if new_offsets = None then
                    (if offsets_endings = None then res
                     else res\<lparr>live_buffers := live_buffers res - 1\<rparr>)
                  else
                    (if offsets_endings = None
                     then res\<lparr>live_buffers := live_buffers res + 1\<rparr> else res))
               else res);
            new_endings = (if grow then new_offsets else offsets_endings)
        in case new_endings of
             None \<Rightarrow> (Inl MemoryError, res1\<lparr>live_objects := live_objects res1 - 1\<rparr>)
           | Some os \<Rightarrow>
               let will_continue = (if match \<noteq> None then 1 else 0);
                   next_offset = last_start + offset_in_remaining + length separator * will_continue
               in split_loop malloc text separator maxsplit bytes_per_offset
                    (last_start + offset_in_remaining + length separator)
                    (Some (os @ [word_of_nat next_offset])) new_capacity res1
      else (Inr offsets_endings, res))"
  by pat_completeness auto
termination
  by (relation "measure (\<lambda>(malloc, text, separator, maxsplit, bpo, last_start, oe, cap, res).
        maxsplit - (case oe of None \<Rightarrow> 0 | Some os \<Rightarrow> length os))")
    (auto split: option.splits if_splits)

declare split_loop.simps [simp del]

text \<open>
  \<^verbatim>\<open>Str_split_\<close> (a name cannot end in an underscore here, hence the suffix).
  \<^verbatim>\<open>PyObject_New\<close> adds a live object (the host's allocation of the object is
  taken to succeed; when it fails the function returns \<^verbatim>\<open>NULL\<close> before it has done
  anything else); the layout is chosen once from the length of the text;
  \<^verbatim>\<open>Py_INCREF(parent)\<close> is reached on success only.
\<close>

definition Str_split_impl ::
  "(nat \<Rightarrow> byte) \<Rightarrow> (nat \<Rightarrow> nat) \<Rightarrow> resources \<Rightarrow> nat \<Rightarrow> sz_string_view_t \<Rightarrow> sz_string_view_t
     \<Rightarrow> bool \<Rightarrow> int \<Rightarrow> (error + Strs) \<times> resources"
where
  "Str_split_impl mem malloc initial_resources prnt text separator keepseparator maxsplit =
     (let res = initial_resources\<lparr>live_objects := live_objects initial_resources + 1\<rparr>;
          sep_len = (if keepseparator then 0 else 1) * sv_length separator;
          limit = nat (maxsplit mod 2 ^ 64)
      in if UINT32_MAX \<le> sv_length text then
           (case split_loop malloc (view_bytes mem text) (view_bytes mem separator) limit 8 0
                   (None :: 64 word list option) 0 res of
              (Inl e, res') \<Rightarrow> (Inl e, res')
            | (Inr oe, res') \<Rightarrow>
                (Inr (STRS_CONSECUTIVE_64
                   \<lparr>c_count = (case oe of None \<Rightarrow> 0 | Some os \<Rightarrow> length os),
                    c_separator_length = sep_len, c_parent = prnt, c_start = sv_start text,
                    c_end_offsets = (case oe of None \<Rightarrow> [] | Some os \<Rightarrow> os)\<rparr>),
                 res'\<lparr>parent_refcnt := parent_refcnt res' + 1\<rparr>))
         else
           (case split_loop malloc (view_bytes mem text) (view_bytes mem separator) limit 4 0
                   (None :: 32 word list option) 0 res of
              (Inl e, res') \<Rightarrow> (Inl e, res')
            | (Inr oe, res') \<Rightarrow>
                (Inr (STRS_CONSECUTIVE_32
                   \<lparr>c_count = (case oe of None \<Rightarrow> 0 | Some os \<Rightarrow> length os),
                    c_separator_length = sep_len, c_parent = prnt, c_start = sv_start text,
                    c_end_offsets = (case oe of None \<Rightarrow> [] | Some os \<Rightarrow> os)\<rparr>),
                 res'\<lparr>parent_refcnt := parent_refcnt res' + 1\<rparr>)))"

section \<open>The permutation helpers\<close>

subsection \<open>\<^verbatim>\<open>apply_order\<close>\<close>

text \<open>
  The inner loop of \<^verbatim>\<open>apply_order\<close>:
  \<^verbatim>\<open>while (i != (j = (size_t)order[k])) { array[k] = array[j]; order[k] = k; k = j; }\<close>
  It need not terminate on an arbitrary \<open>order\<close>, so \<open>None\<close> stands for a loop that
  runs forever. An access outside the two arrays is a \<open>MemoryFault\<close>.
\<close>

partial_function (option) follow_cycle ::
  "nat \<Rightarrow> nat \<Rightarrow> 'a list \<Rightarrow> nat list \<Rightarrow> (error + nat \<times> 'a list \<times> nat list) option"
where
  "follow_cycle i k array order =
     (if length order \<le> k then Some (Inl MemoryFault)
      else let j = order ! k in
        if i \<noteq> j then
          (if length array \<le> j \<or> length array \<le> k then Some (Inl MemoryFault)
           else follow_cycle i j (array[k := array ! j]) (order[k := k]))
        else Some (Inr (k, array, order)))"

text \<open>The outer \<^verbatim>\<open>for (size_t i = 0; i < length; ++i)\<close> loop, from index \<open>i\<close> on.\<close>

function apply_order_from ::
  "nat \<Rightarrow> 'a list \<Rightarrow> nat list \<Rightarrow> nat \<Rightarrow> (error + 'a list \<times> nat list) option"
where
  "apply_order_from i array order len =
     (if i < len then
        (if length order \<le> i then Some (Inl MemoryFault)
         else if i = order ! i then apply_order_from (i + 1) array order len
         else if length array \<le> i then Some (Inl MemoryFault)
         else let temp = array ! i in
           (case follow_cycle i i array order of
              None \<Rightarrow> None
            | Some (Inl e) \<Rightarrow> Some (Inl e)
            | Some (Inr (k, array', order')) \<Rightarrow>
                if length array' \<le> k \<or> length order' \<le> k then Some (Inl MemoryFault)
                else apply_order_from (i + 1) (array'[k := temp]) (order'[k := k]) len))
      else Some (Inr (array, order)))"
  by pat_completeness auto
termination
  by (relation "measure (\<lambda>(i, array, order, len). len - i)") auto

declare apply_order_from.simps [simp del]

definition apply_order ::
  "'a list \<Rightarrow> nat list \<Rightarrow> nat \<Rightarrow> (error + 'a list \<times> nat list) option"
where
  "apply_order array order len = apply_order_from 0 array order len"

subsection \<open>\<^verbatim>\<open>reverse_offsets\<close>\<close>

text \<open>
  \<^verbatim>\<open>for (i = 0, j = length - 1; i < j; i++, j--)\<close> swaps \<^verbatim>\<open>array[i]\<close> and
  \<^verbatim>\<open>array[j]\<close>. Both indices are \<^verbatim>\<open>size_t\<close>: \<^verbatim>\<open>length - 1\<close> wraps to
  \<open>2 ^ 64 - 1\<close> for an empty array. Inside the loop \<open>i < j\<close> holds, so neither the
  increment nor the decrement wraps.
\<close>

function reverse_loop :: "nat \<Rightarrow> nat \<Rightarrow> 'a list \<Rightarrow> error + 'a list" where
  "reverse_loop i j array =
     (if i < j then
        (if length array \<le> i \<or> length array \<le> j then Inl MemoryFault
         else reverse_loop (i + 1) (j - 1) (array[i := array ! j, j := array ! i]))
      else Inr array)"
  by pat_completeness auto
termination
  by (relation "measure (\<lambda>(i, j, array). j - i)") auto

declare reverse_loop.simps [simp del]

definition reverse_offsets :: "nat list \<Rightarrow> nat \<Rightarrow> error + nat list" where
  "reverse_offsets array len = reverse_loop 0 ((len + 2 ^ 64 - 1) mod 2 ^ 64) array"

section \<open>Shuffling\<close>

text \<open>
  The Fisher-Yates loop of \<^verbatim>\<open>Strs_shuffle\<close>,
  \<^verbatim>\<open>for (size_t i = count - 1; i > 0; --i) { size_t j = rand() % (i + 1); ... }\<close>.
  The C library's generator is a parameter: \<open>rand\<close> maps the hidden state to the number
  drawn and the next state. \<^verbatim>\<open>i + 1\<close> is a \<^verbatim>\<open>size_t\<close> sum and wraps; a zero
  divisor is a \<open>DivisionByZero\<close>.
\<close>

function shuffle_loop ::
  "('g \<Rightarrow> nat \<times> 'g) \<Rightarrow> nat \<Rightarrow> 'g \<Rightarrow> sz_string_view_t list \<Rightarrow> (error + sz_string_view_t list) \<times> 'g"
where
  "shuffle_loop rand i g parts =
     (if 0 < i then
        (case rand g of (r, g') \<Rightarrow>
           let divisor = (i + 1) mod 2 ^ 64 in
           if divisor = 0 then (Inl DivisionByZero, g')
           else let j = r mod divisor in
             if length parts \<le> i \<or> length parts \<le> j then (Inl MemoryFault, g')
             else shuffle_loop rand (i - 1) g' (parts[i := parts ! j, j := parts ! i]))
      else (Inr parts, g))"
  by pat_completeness auto
termination
  by (relation "measure (\<lambda>(rand, i, g, parts). i)") auto

declare shuffle_loop.simps [simp del]

text \<open>The object with the \<^verbatim>\<open>parts\<close> array of its \<^verbatim>\<open>reordered\<close> member replaced.\<close>

definition with_parts :: "Strs \<Rightarrow> sz_string_view_t list \<Rightarrow> Strs" where
  "with_parts self ps =
     (case self of
        STRS_REORDERED r \<Rightarrow> STRS_REORDERED (r\<lparr>r_parts := ps\<rparr>)
      | STRS_MULTI_SOURCE r \<Rightarrow> STRS_MULTI_SOURCE (r\<lparr>r_parts := ps\<rparr>)
      | _ \<Rightarrow> self)"

text \<open>\<^verbatim>\<open>self->data.reordered\<close>, which both tags left by the conversion select.\<close>

definition reordered_of :: "Strs \<Rightarrow> error + reordered_slices_t" where
  "reordered_of self =
     (case self of
        STRS_REORDERED r \<Rightarrow> Inr r
      | STRS_MULTI_SOURCE r \<Rightarrow> Inr r
      | _ \<Rightarrow> Inl MemoryFault)"

text \<open>
  \<^verbatim>\<open>Strs_shuffle\<close> after its arguments are parsed: \<open>seed\<close> is the
  \<^verbatim>\<open>unsigned int\<close> given to \<^verbatim>\<open>srand\<close>, which sets the generator's state whatever
  it was before (\<open>g0\<close>). The parts are permuted in place.
\<close>

definition Strs_shuffle ::
  "(nat \<Rightarrow> nat) \<Rightarrow> (nat \<Rightarrow> 'g) \<Rightarrow> ('g \<Rightarrow> nat \<times> 'g) \<Rightarrow> 'g \<Rightarrow> Strs \<Rightarrow> nat
     \<Rightarrow> (error + unit) \<times> Strs \<times> 'g"
where
  "Strs_shuffle malloc srand rand g0 self seed =
     (case prepare_strings_for_reordering malloc self of
        (Inl e, self') \<Rightarrow> (Inl TypeError, self', g0)
      | (Inr u, self') \<Rightarrow>
          (case reordered_of self' of
             Inl e \<Rightarrow> (Inl e, self', g0)
           | Inr reordered \<Rightarrow>
               let parts = r_parts reordered; cnt = r_count reordered in
               (case shuffle_loop rand ((cnt + 2 ^ 64 - 1) mod 2 ^ 64)
                       (srand (seed mod 2 ^ 32)) parts of
                  (Inl e, g) \<Rightarrow> (Inl e, self', g)
                | (Inr parts', g) \<Rightarrow> (Inr (), with_parts self' parts', g))))"

section \<open>Sorting\<close>

text \<open>
  The comparator, as \<^verbatim>\<open>Str_richcompare\<close> computes it: \<^verbatim>\<open>memcmp\<close> over the common
  length, bytes compared as unsigned, and on a tie the shorter string is the smaller.
\<close>

fun memcmp :: "byte list \<Rightarrow> byte list \<Rightarrow> nat \<Rightarrow> int" where
  "memcmp (x # xs) (y # ys) (Suc n) =
     (if x < y then - 1 else if y < x then 1 else memcmp xs ys n)"
| "memcmp xs ys n = 0"

definition sz_order :: "byte list \<Rightarrow> byte list \<Rightarrow> int" where
  "sz_order a b =
     (let min_length = (if length a < length b then length a else length b);
          order = memcmp a b min_length
      in if order = 0
         then (if length b < length a then 1 else 0) - (if length a < length b then 1 else 0)
         else order)"

text \<open>
  Modelled from the spec: \<^verbatim>\<open>sz_sort\<close> is declared in \<^verbatim>\<open>stringzilla/stringzilla.h\<close>,
  which is not among the sources. The spec asks for a comparison sort over \<open>order\<close>
  that reads the parts through the index and leaves
  \<open>parts[order[0]] \<le> parts[order[1]] \<le> \<dots>\<close> under the lexicographic byte-wise
  comparator with shorter-is-smaller; it moves indices, not parts. Here it is insertion
  sort on the indices keyed by the bytes of the part. It reads part \<open>i\<close> for every index
  \<open>i\<close> in \<open>order\<close>, a fault when the parts array is shorter.
\<close>

definition sz_sort ::
  "(nat \<Rightarrow> byte) \<Rightarrow> sz_string_view_t list \<Rightarrow> nat list \<Rightarrow> error + nat list"
where
  "sz_sort mem parts order =
     (if \<exists>i \<in> set order. length parts \<le> i then Inl MemoryFault
      else Inr (sort_key (\<lambda>i. view_bytes mem (parts ! i)) order))"

text \<open>
  \<^verbatim>\<open>PyInit_stringzilla\<close> sets up the process-wide scratch buffer
  \<^verbatim>\<open>temporary_memory\<close>, a \<^verbatim>\<open>sz_string_view_t\<close> whose start is \<open>0\<close> when null.
\<close>

definition PyInit_stringzilla :: "(nat \<Rightarrow> nat) \<Rightarrow> sz_string_view_t" where
  "PyInit_stringzilla malloc =
     \<lparr>sv_start = malloc 4096, sv_length = 4096 * (if malloc 4096 \<noteq> 0 then 1 else 0)\<rparr>"

text \<open>
  \<^verbatim>\<open>Strs_sort_\<close> (suffixed as above): converts the layout, grows the scratch buffer
  to \<^verbatim>\<open>sizeof(sz_sorted_idx_t) * count\<close> bytes (8 per index), fills \<open>order\<close> with
  \<open>0, 1, \<dots>\<close> and sorts it. It returns the parts, the order and the count, with the
  object and the scratch buffer after the call.
\<close>

definition Strs_sort_impl ::
  "(nat \<Rightarrow> byte) \<Rightarrow> (nat \<Rightarrow> nat) \<Rightarrow> sz_string_view_t \<Rightarrow> Strs
     \<Rightarrow> (error + sz_string_view_t list \<times> nat list \<times> nat) \<times> Strs \<times> sz_string_view_t"
where
  "Strs_sort_impl mem malloc temporary_memory self =
     (case prepare_strings_for_reordering malloc self of
        (Inl e, self') \<Rightarrow> (Inl TypeError, self', temporary_memory)
      | (Inr u, self') \<Rightarrow>
          (case reordered_of self' of
             Inl e \<Rightarrow> (Inl e, self', temporary_memory)
           | Inr reordered \<Rightarrow>
               let parts = r_parts reordered; cnt = r_count reordered;
                   memory_needed = 8 * cnt;
                   tm = (if sv_length temporary_memory < memory_needed
                         then \<lparr>sv_start = malloc memory_needed, sv_length = memory_needed\<rparr>
                         else temporary_memory)
               in if sv_start tm = 0 then (Inl MemoryError, self', tm)
                  else (case sz_sort mem parts [0..<cnt] of
                          Inl e \<Rightarrow> (Inl e, self', tm)
                        | Inr order \<Rightarrow> (Inr (parts, order, cnt), self', tm))))"

text \<open>
  \<^verbatim>\<open>Strs_sort\<close> after its arguments are parsed: the order is reversed on request and
  then applied to the parts in place. \<open>None\<close> is a call that does not return.
\<close>

definition Strs_sort ::
  "(nat \<Rightarrow> byte) \<Rightarrow> (nat \<Rightarrow> nat) \<Rightarrow> sz_string_view_t \<Rightarrow> Strs \<Rightarrow> bool
     \<Rightarrow> ((error + unit) \<times> Strs \<times> sz_string_view_t) option"
where
  "Strs_sort mem malloc temporary_memory self reverse =
     (case Strs_sort_impl mem malloc temporary_memory self of
        (Inl e, self', tm) \<Rightarrow> Some (Inl e, self', tm)
      | (Inr (parts, order, cnt), self', tm) \<Rightarrow>
          (case (if reverse then reverse_offsets order cnt else Inr order) of
             Inl e \<Rightarrow> Some (Inl e, self', tm)
           | Inr order' \<Rightarrow>
               (case apply_order parts order' cnt of
                  None \<Rightarrow> None
                | Some (Inl e) \<Rightarrow> Some (Inl e, self', tm)
                | Some (Inr (parts', order'')) \<Rightarrow> Some (Inr (), with_parts self' parts', tm))))"

text \<open>
  \<^verbatim>\<open>Strs_order\<close> after its arguments are parsed: the order, reversed on request, is
  returned as a tuple of \<open>count\<close> integers; the parts are not moved.
\<close>

definition Strs_order ::
  "(nat \<Rightarrow> byte) \<Rightarrow> (nat \<Rightarrow> nat) \<Rightarrow> sz_string_view_t \<Rightarrow> Strs \<Rightarrow> bool
     \<Rightarrow> (error + nat list) \<times> Strs \<times> sz_string_view_t"
where
  "Strs_order mem malloc temporary_memory self reverse =
     (case Strs_sort_impl mem malloc temporary_memory self of
        (Inl e, self', tm) \<Rightarrow> (Inl e, self', tm)
      | (Inr (parts, order, cnt), self', tm) \<Rightarrow>
          (case (if reverse then reverse_offsets order cnt else Inr order) of
             Inl e \<Rightarrow> (Inl e, self', tm)
           | Inr order' \<Rightarrow>
               if length order' < cnt then (Inl MemoryFault, self', tm)
               else (Inr (take cnt order'), self', tm)))"

section \<open>Auxiliary definitions\<close>

text \<open>
  A well-formed object holds as many array elements as its count says
  (\<^verbatim>\<open>end_offsets\<close> "contains count-many integers").
\<close>

definition wf_Strs :: "Strs \<Rightarrow> bool" where
  "wf_Strs strs =
     (case strs of
        STRS_CONSECUTIVE_32 c \<Rightarrow> c_count c = length (c_end_offsets c)
      | STRS_CONSECUTIVE_64 c \<Rightarrow> c_count c = length (c_end_offsets c)
      | STRS_REORDERED r \<Rightarrow> r_count r = length (r_parts r)
      | STRS_MULTI_SOURCE r \<Rightarrow> r_count r = length (r_parts r))"

definition is_consecutive :: "Strs \<Rightarrow> bool" where
  "is_consecutive strs =
     (case strs of STRS_CONSECUTIVE_32 c \<Rightarrow> True | STRS_CONSECUTIVE_64 c \<Rightarrow> True | _ \<Rightarrow> False)"

definition Strs_parent :: "Strs \<Rightarrow> nat" where
  "Strs_parent strs =
     (case strs of
        STRS_CONSECUTIVE_32 c \<Rightarrow> c_parent c
      | STRS_CONSECUTIVE_64 c \<Rightarrow> c_parent c
      | STRS_REORDERED r \<Rightarrow> r_parent r
      | STRS_MULTI_SOURCE r \<Rightarrow> r_parent r)"

definition is_multi_source :: "Strs \<Rightarrow> bool" where
  "is_multi_source strs = (case strs of STRS_MULTI_SOURCE r \<Rightarrow> True | _ \<Rightarrow> False)"

text \<open>Abbreviations for the quantities of one round of the split loop.\<close>

definition written :: "'a list option \<Rightarrow> 'a list" where
  "written oe = (case oe of None \<Rightarrow> [] | Some os \<Rightarrow> os)"

definition offset_in_remaining :: "byte list \<Rightarrow> byte list \<Rightarrow> nat \<Rightarrow> nat" where
  "offset_in_remaining tx separator last_start =
     (case sz_find (drop last_start tx) separator of
        Some m \<Rightarrow> m | None \<Rightarrow> length tx - last_start)"

definition next_offset :: "byte list \<Rightarrow> byte list \<Rightarrow> nat \<Rightarrow> nat" where
  "next_offset tx separator last_start =
     last_start + offset_in_remaining tx separator last_start +
       length separator * (if sz_find (drop last_start tx) separator \<noteq> None then 1 else 0)"

definition alloc_fails :: "(nat \<Rightarrow> nat) \<Rightarrow> nat \<Rightarrow> nat \<Rightarrow> 'a list option \<Rightarrow> bool" where
  "alloc_fails malloc bpo cap oe =
     (if cap \<le> length (written oe) then malloc ((cap + 1) * 2 * bpo) = 0 else oe = None)"

text \<open>
  The sizes \<^verbatim>\<open>realloc\<close> is called with while the loop of \<^verbatim>\<open>Str_split_\<close> runs,
  in the order of the calls, when none of the calls fails: a round asks for
  \<^verbatim>\<open>offsets_capacity * bytes_per_offset\<close> bytes, the capacity just grown, exactly when
  \<^verbatim>\<open>offsets_count >= offsets_capacity\<close>. The loop is the one above with the offsets
  left out; only their number matters for the calls. \<open>Str_split_requests\<close> are the
  sizes asked for by a whole call of \<^verbatim>\<open>Str_split_\<close>.
\<close>

function split_requests ::
  "byte list \<Rightarrow> byte list \<Rightarrow> nat \<Rightarrow> nat \<Rightarrow> nat \<Rightarrow> nat \<Rightarrow> nat \<Rightarrow> nat list"
where
  "split_requests tx separator maxsplit bytes_per_offset last_start offsets_count
       offsets_capacity =
     (if last_start \<le> length tx \<and> offsets_count < maxsplit then
        let grow = (offsets_capacity \<le> offsets_count);
            new_capacity = (if grow then (offsets_capacity + 1) * 2 else offsets_capacity)
        in (if grow then [new_capacity * bytes_per_offset] else []) @
           split_requests tx separator maxsplit bytes_per_offset
             (last_start + offset_in_remaining tx separator last_start + length separator)
             (offsets_count + 1) new_capacity
      else [])"
  by pat_completeness auto
termination
  by (relation "measure (\<lambda>(tx, separator, maxsplit, bpo, last_start, cnt, cap). maxsplit - cnt)")
    auto

declare split_requests.simps [simp del]

definition Str_split_requests ::
  "(nat \<Rightarrow> byte) \<Rightarrow> sz_string_view_t \<Rightarrow> sz_string_view_t \<Rightarrow> int \<Rightarrow> nat list"
where
  "Str_split_requests mem tx separator maxsplit =
     split_requests (view_bytes mem tx) (view_bytes mem separator) (nat (maxsplit mod 2 ^ 64))
       (if UINT32_MAX \<le> sv_length tx then 8 else 4) 0 0 0"

text \<open>
  The parts of a collection joined again, the separator put back between consecutive
  parts.
\<close>

fun join_parts :: "byte list \<Rightarrow> byte list list \<Rightarrow> byte list" where
  "join_parts sep [] = []"
| "join_parts sep [p] = p"
| "join_parts sep (p # q # ps) = p @ sep @ join_parts sep (q # ps)"

text \<open>
  All observable parts of a collection, in order: what the accessor of its layout gives
  for each index below the count.
\<close>

definition Strs_parts :: "Strs \<Rightarrow> error + sz_string_view_t list" where
  "Strs_parts strs =
     (case str_at_offset_getter strs of
        Inl e \<Rightarrow> Inl e
      | Inr getter \<Rightarrow> populate getter (Strs_len strs))"

text \<open>
  What the split loop leaves in the offset array, started at \<open>prev\<close>: every offset
  but the last ends right after an occurrence of the separator, the last is the length of
  the text. \<open>pieces\<close> are the offset and length of each part as the consecutive
  accessor computes them, \<open>slice_of\<close> the bytes of such a piece.
\<close>

fun chain :: "byte list \<Rightarrow> byte list \<Rightarrow> nat \<Rightarrow> nat list \<Rightarrow> bool" where
  "chain tx sep prev [] = False"
| "chain tx sep prev [e] = (e = length tx \<and> prev \<le> e)"
| "chain tx sep prev (e # e' # es) =
     (prev + length sep \<le> e \<and> e \<le> length tx \<and>
      take (length sep) (drop (e - length sep) tx) = sep \<and> chain tx sep e (e' # es))"

fun pieces :: "nat \<Rightarrow> nat \<Rightarrow> nat list \<Rightarrow> (nat \<times> nat) list" where
  "pieces seplen prev [] = []"
| "pieces seplen prev [e] = [(prev, e - prev)]"
| "pieces seplen prev (e # e' # es) = (prev, e - prev - seplen) # pieces seplen e (e' # es)"

definition slice_of :: "byte list \<Rightarrow> nat \<times> nat \<Rightarrow> byte list" where
  "slice_of tx pl = take (snd pl) (drop (fst pl) tx)"

text \<open>
  The order the sort of a reordered collection computes: \<^verbatim>\<open>sz_sort\<close> applied to
  the identity order.
\<close>

definition sorted_order :: "(nat \<Rightarrow> byte) \<Rightarrow> sz_string_view_t list \<Rightarrow> nat list" where
  "sorted_order mem parts = sort_key (\<lambda>i. view_bytes mem (parts ! i)) [0..<length parts]"

subsection \<open>Example data\<close>

text \<open>
  A memory holding \<^verbatim>\<open>a,b,c\<close> at address 0 followed by a comma, the views of the text
  and of the separator, two allocators (one that always succeeds, one that refuses more
  than 8 bytes), the collection \<^verbatim>\<open>a,b,c\<close> splits into and its first two parts as
  the slice branch builds them.
\<close>

definition abc_mem :: "nat \<Rightarrow> byte" where
  "abc_mem a = (if a < 6 then [0x61, 0x2C, 0x62, 0x2C, 0x63, 0x2C] ! a else 0)"

definition abc_text :: sz_string_view_t where
  "abc_text = \<lparr>sv_start = 0, sv_length = 5\<rparr>"

definition comma :: sz_string_view_t where
  "comma = \<lparr>sv_start = 5, sv_length = 1\<rparr>"

definition no_parts :: reordered_slices_t where
  "no_parts = \<lparr>r_count = 0, r_parent = 7, r_parts = []\<rparr>"

text \<open>The same layout over a memory holding \<^verbatim>\<open>c,a,b\<close>.\<close>

definition cab_mem :: "nat \<Rightarrow> byte" where
  "cab_mem a = (if a < 6 then [0x63, 0x2C, 0x61, 0x2C, 0x62, 0x2C] ! a else 0)"

definition malloc_ok :: "nat \<Rightarrow> nat" where "malloc_ok n = 1"

definition malloc_small :: "nat \<Rightarrow> nat" where
  "malloc_small n = (if n \<le> 8 then 1 else 0)"

definition initial_resources :: resources where "initial_resources = \<lparr>parent_refcnt = 1, live_buffers = 0, live_objects = 0\<rparr>"

definition abc_parts :: "32 word consecutive_slices_t" where
  "abc_parts = \<lparr>c_count = 3, c_separator_length = 1, c_parent = 7, c_start = 0,
           c_end_offsets = [2, 4, 5]\<rparr>"

definition ab_slice :: "32 word consecutive_slices_t" where
  "ab_slice = \<lparr>c_count = 2, c_separator_length = 1, c_parent = 7, c_start = 0,
           c_end_offsets = [2, 4]\<rparr>"


section \<open>Invariants used in the proofs\<close>

text \<open>
  The state of the inner loop of \<^verbatim>\<open>apply_order\<close> while it walks the cycle through
  \<open>i\<close>: \<open>Vs\<close> are the slots already filled, \<open>k\<close> is the open slot, \<open>array0\<close> and
  \<open>order0\<close> are the arrays when the walk began.
\<close>

definition cyc_inv :: "nat \<Rightarrow> nat \<Rightarrow> 'a list \<Rightarrow> nat list \<Rightarrow> nat set \<Rightarrow> nat \<Rightarrow> 'a list \<Rightarrow> nat list \<Rightarrow> bool" where
  "cyc_inv n i array0 order0 Vs k array order \<longleftrightarrow>
     length array = n \<and> length order = n \<and> k < n \<and> Vs \<subseteq> {..<n} \<and> k \<notin> Vs \<and>
     (\<forall>m<n. order ! m = (if m \<in> Vs then m else order0 ! m)) \<and>
     (\<forall>m<n. array ! m = (if m \<in> Vs then array0 ! (order0 ! m) else array0 ! m)) \<and>
     (\<forall>v\<in>insert k Vs. v \<noteq> i \<longrightarrow> (\<exists>u\<in>Vs. order0 ! u = v)) \<and>
     (\<forall>u\<in>Vs. order0 ! u \<in> insert k Vs) \<and>
     i \<in> insert k Vs"

text \<open>
  The state of the outer loop at index \<open>i\<close>: \<open>order\<close> is still injective into
  \<open>[0, n)\<close>, fixes every index below \<open>i\<close>, and reading the array through it gives
  the wanted arrangement \<open>target\<close>.
\<close>

definition outer_inv :: "nat \<Rightarrow> (nat \<Rightarrow> 'a) \<Rightarrow> nat \<Rightarrow> 'a list \<Rightarrow> nat list \<Rightarrow> bool" where
  "outer_inv n target i array order \<longleftrightarrow>
     length array = n \<and> length order = n \<and> (\<forall>m<n. order ! m < n) \<and>
     inj_on ((!) order) {..<n} \<and> (\<forall>m<i. order ! m = m) \<and>
     (\<forall>m<n. array ! (order ! m) = target m)"

section \<open>The cycle-following apply is correct\<close>

lemma follow_cycle_closes:
  assumes inj: "inj_on ((!) order0) {..<n}" and rng: "\<forall>m<n. order0 ! m < n"
    and nonfix: "order0 ! i \<noteq> i"
  shows "cyc_inv n i array0 order0 Vs k array order \<Longrightarrow>
    \<exists>k' Vs' array' order'. follow_cycle i k array order = Some (Inr (k', array', order')) \<and>
       cyc_inv n i array0 order0 Vs' k' array' order' \<and> order0 ! k' = i"
proof (induction "n - card Vs" arbitrary: Vs k array order rule: less_induct)
  case less
  note inv = less.prems
  have len: "length array = n" "length order = n" and k: "k < n" and Vs: "Vs \<subseteq> {..<n}" "k \<notin> Vs"
    using inv by (auto simp: cyc_inv_def)
  have fin: "finite Vs" using Vs(1) finite_subset by blast
  have ordk: "order ! k = order0 ! k" using inv k Vs by (auto simp: cyc_inv_def)
  show ?case
  proof (cases "order0 ! k = i")
    case True
    then have "follow_cycle i k array order = Some (Inr (k, array, order))"
      using k len ordk by (subst follow_cycle.simps) simp
    with inv True show ?thesis by blast
  next
    case False
    define j where "j = order0 ! k"
    have j: "j < n" using rng k by (simp add: j_def)
    have jni: "j \<noteq> i" using False by (simp add: j_def)
    have jnot: "j \<notin> insert k Vs"
    proof
      assume "j \<in> insert k Vs"
      moreover have "\<forall>v\<in>insert k Vs. v \<noteq> i \<longrightarrow> (\<exists>u\<in>Vs. order0 ! u = v)"
        using inv unfolding cyc_inv_def by blast
      ultimately obtain u where u: "u \<in> Vs" "order0 ! u = j"
        using jni by blast
      then have "u < n" using Vs by auto
      with u k inj have "u = k" by (auto simp: j_def inj_on_def)
      with u Vs show False by simp
    qed
    have step: "follow_cycle i k array order = follow_cycle i j (array[k := array ! j]) (order[k := k])"
      using k len ordk j jni by (subst follow_cycle.simps) (simp add: j_def Let_def)
    have inv': "cyc_inv n i array0 order0 (insert k Vs) j (array[k := array ! j]) (order[k := k])"
      using inv j jnot k unfolding cyc_inv_def j_def [symmetric]
      apply (intro conjI)
               apply simp_all
          apply (auto simp: nth_list_update j_def)
      done
    have "card (insert k Vs) = Suc (card Vs)" using fin Vs by simp
    moreover have "card (insert k Vs) \<le> n"
      using Vs k card_mono [of "{..<n}" "insert k Vs"] by auto
    ultimately have "n - card (insert k Vs) < n - card Vs" by simp
    from less.hyps [OF this inv'] step show ?thesis by simp
  qed
qed

lemma outer_inv_done:
  assumes "outer_inv n target n array order"
  shows "array = map target [0..<n]" and "order = [0..<n]"
proof -
  from assms have len: "length array = n" "length order = n"
    and fx: "\<forall>m<n. order ! m = m" and tg: "\<forall>m<n. array ! (order ! m) = target m"
    by (auto simp: outer_inv_def)
  show "order = [0..<n]" using len fx by (intro nth_equalityI) auto
  show "array = map target [0..<n]"
  proof (rule nth_equalityI)
    show "length array = length (map target [0..<n])" using len by simp
  next
    fix m assume "m < length array"
    then have m: "m < n" using len by simp
    with fx tg have "array ! m = target m" by metis
    with m show "array ! m = map target [0..<n] ! m" by simp
  qed
qed

lemma outer_inv_skip:
  assumes "outer_inv n target i array order" "order ! i = i"
  shows "outer_inv n target (Suc i) array order"
  using assms by (auto simp: outer_inv_def less_Suc_eq)

lemma outer_inv_cycle:
  assumes oi: "outer_inv n target i array order" and i: "i < n"
    and ci: "cyc_inv n i array order Vs k array' order'" and close: "order ! k = i"
  shows "outer_inv n target (Suc i) (array'[k := array ! i]) (order'[k := k])"
proof -
  define W where "W = insert k Vs"
  from oi have len: "length array = n" "length order = n" and rng: "\<forall>m<n. order ! m < n"
    and inj: "inj_on ((!) order) {..<n}" and fx: "\<forall>m<i. order ! m = m"
    and tg: "\<forall>m<n. array ! (order ! m) = target m"
    by (auto simp: outer_inv_def)
  from ci have len': "length array' = n" "length order' = n" and k: "k < n"
    and Vs: "Vs \<subseteq> {..<n}" "k \<notin> Vs"
    and ord': "\<forall>m<n. order' ! m = (if m \<in> Vs then m else order ! m)"
    and arr': "\<forall>m<n. array' ! m = (if m \<in> Vs then array ! (order ! m) else array ! m)"
    and pred: "\<forall>v\<in>insert k Vs. v \<noteq> i \<longrightarrow> (\<exists>u\<in>Vs. order ! u = v)"
    and iW: "i \<in> W"
    unfolding cyc_inv_def W_def by blast+
  have Wn: "W \<subseteq> {..<n}" using Vs k by (auto simp: W_def)
  have ordW: "\<forall>m<n. (order'[k := k]) ! m = (if m \<in> W then m else order ! m)"
    using ord' len' k by (auto simp: W_def nth_list_update)
  have arrW: "\<forall>m<n. (array'[k := array ! i]) ! m = (if m \<in> W then array ! (order ! m) else array ! m)"
    using arr' len' k close by (auto simp: W_def nth_list_update)
  have Wpred: "\<exists>u\<in>W. order ! u = w" if "w \<in> W" for w
  proof (cases "w = i")
    case True then show ?thesis using close by (auto simp: W_def)
  next
    case False
    with pred that obtain u where "u \<in> Vs" "order ! u = w" unfolding W_def by blast
    then show ?thesis by (auto simp: W_def)
  qed
  have out: "order ! m \<notin> W" if "m < n" "m \<notin> W" for m
  proof
    assume "order ! m \<in> W"
    then obtain u where u: "u \<in> W" "order ! u = order ! m" using Wpred by blast
    then have "u < n" using Wn by auto
    with u that inj have "u = m" by (auto simp: inj_on_def)
    with u that show False by simp
  qed
  have inj': "inj_on ((!) (order'[k := k])) {..<n}"
  proof (rule inj_onI)
    fix a b assume a: "a \<in> {..<n}" and b: "b \<in> {..<n}"
      and eq: "order'[k := k] ! a = order'[k := k] ! b"
    then have an: "a < n" and bn: "b < n" by auto
    show "a = b"
    proof (cases "a \<in> W"; cases "b \<in> W")
      assume "a \<in> W" "b \<in> W" then show ?thesis using eq ordW an bn by simp
    next
      assume "a \<in> W" "b \<notin> W"
      then have "order ! b \<in> W" using eq ordW an bn by simp
      then show ?thesis using out bn \<open>b \<notin> W\<close> by blast
    next
      assume "a \<notin> W" "b \<in> W"
      then have "order ! a \<in> W" using eq ordW an bn by simp
      then show ?thesis using out an \<open>a \<notin> W\<close> by blast
    next
      assume "a \<notin> W" "b \<notin> W"
      then have "order ! a = order ! b" using eq ordW an bn by simp
      then show ?thesis using inj an bn by (auto simp: inj_on_def)
    qed
  qed
  have rng': "\<forall>m<n. (order'[k := k]) ! m < n" using ordW rng by auto
  have fx': "\<forall>m<Suc i. (order'[k := k]) ! m = m"
  proof (intro allI impI)
    fix m assume m: "m < Suc i"
    then have mn: "m < n" using i by simp
    show "(order'[k := k]) ! m = m"
    proof (cases "m \<in> W")
      case True then show ?thesis using ordW mn by simp
    next
      case False
      then have "m \<noteq> i" using iW by auto
      with m have "m < i" by simp
      then show ?thesis using ordW mn False fx by simp
    qed
  qed
  have tg': "\<forall>m<n. (array'[k := array ! i]) ! ((order'[k := k]) ! m) = target m"
  proof (intro allI impI)
    fix m assume mn: "m < n"
    show "(array'[k := array ! i]) ! ((order'[k := k]) ! m) = target m"
    proof (cases "m \<in> W")
      case True then show ?thesis using ordW arrW tg mn by simp
    next
      case False
      then have "order ! m \<notin> W" "order ! m < n" using out mn rng by auto
      then show ?thesis using ordW arrW tg mn False by simp
    qed
  qed
  show ?thesis
    unfolding outer_inv_def using len' inj' rng' fx' tg' by simp
qed

lemma cyc_inv_start:
  assumes "length array = n" "length order = n" "i < n"
  shows "cyc_inv n i array order {} i array order"
  using assms by (simp add: cyc_inv_def)

lemma apply_order_from_correct:
  "i \<le> n \<Longrightarrow> outer_inv n target i array order \<Longrightarrow>
     apply_order_from i array order n = Some (Inr (map target [0..<n], [0..<n]))"
proof (induction "n - i" arbitrary: i array order rule: less_induct)
  case less
  note oi = less.prems(2)
  from oi have len: "length array = n" "length order = n" and rng: "\<forall>m<n. order ! m < n"
    and inj: "inj_on ((!) order) {..<n}"
    by (auto simp: outer_inv_def)
  show ?case
  proof (cases "i < n")
    case False
    with less.prems have "i = n" by simp
    then show ?thesis
      using outer_inv_done [of n target array order] oi
      by (subst apply_order_from.simps) simp
  next
    case True
    then have lt: "n - Suc i < n - i" and le: "Suc i \<le> n" by simp_all
    show ?thesis
    proof (cases "order ! i = i")
      case fixed: True
      have "apply_order_from i array order n = apply_order_from (Suc i) array order n"
        using True len fixed by (subst apply_order_from.simps) simp
      also have "\<dots> = Some (Inr (map target [0..<n], [0..<n]))"
        by (rule less.hyps [OF lt le outer_inv_skip [OF oi fixed]])
      finally show ?thesis .
    next
      case moved: False
      from follow_cycle_closes [OF inj rng moved cyc_inv_start [OF len True]]
      obtain k Vs array' order' where
        fc: "follow_cycle i i array order = Some (Inr (k, array', order'))"
        and ci: "cyc_inv n i array order Vs k array' order'" and close: "order ! k = i"
        by blast
      from ci have k: "k < length array'" "k < length order'" by (auto simp: cyc_inv_def)
      have "apply_order_from i array order n =
              apply_order_from (Suc i) (array'[k := array ! i]) (order'[k := k]) n"
        using True len moved fc k by (subst apply_order_from.simps) simp
      also have "\<dots> = Some (Inr (map target [0..<n], [0..<n]))"
        by (rule less.hyps [OF lt le outer_inv_cycle [OF oi True ci close]])
      finally show ?thesis .
    qed
  qed
qed

lemma apply_order_permutes:
  assumes "length array = n" "length order = n" "distinct order" "set order \<subseteq> {..<n}"
  shows "apply_order array order n = Some (Inr (map (\<lambda>i. array ! (order ! i)) [0..<n], [0..<n]))"
proof -
  have "inj_on ((!) order) {..<n}" using assms by (simp add: inj_on_nth)
  moreover have "\<forall>m<n. order ! m < n" using assms by (auto simp: subset_iff)
  ultimately have "outer_inv n (\<lambda>i. array ! (order ! i)) 0 array order"
    using assms by (simp add: outer_inv_def)
  then show ?thesis unfolding apply_order_def by (intro apply_order_from_correct) simp_all
qed

text \<open>
  C5. For an array of \<open>cnt\<close> parts and an index array \<open>order\<close> that is a permutation of
  \<open>[0, cnt)\<close>, \<^verbatim>\<open>apply_order\<close> terminates without leaving the arrays, the new parts
  satisfy \<open>parts_new[i] = parts_old[order[i]]\<close> for every \<open>i < cnt\<close>, and the order array
  holds the identity on return.
\<close>

theorem apply_order_permutation:
  assumes "length parts = cnt" and "mset order = mset [0..<cnt]"
  shows "apply_order parts order cnt =
           Some (Inr (map (\<lambda>i. parts ! (order ! i)) [0..<cnt], [0..<cnt]))"
proof -
  have "length order = cnt" using assms(2) mset_eq_length by fastforce
  moreover have "distinct order" using assms(2) mset_eq_imp_distinct_iff distinct_upt by blast
  moreover have "set order \<subseteq> {..<cnt}" using assms(2) mset_eq_setD by fastforce
  ultimately show ?thesis using assms(1) by (rule apply_order_permutes [rotated])
qed

theorem apply_order_permutation_witness:
  "length [10, 20, 30, 40 :: nat] = 4 \<and> mset [2, 0, 3, 1] = mset [0..<4] \<and>
   apply_order [10, 20, 30, 40 :: nat] [2, 0, 3, 1] 4 = Some (Inr ([30, 10, 40, 20], [0, 1, 2, 3]))"
proof -
  have l: "length [10, 20, 30, 40 :: nat] = 4" by simp
  have "[0..<4] = [0, 1, 2, 3 :: nat]" by (simp add: upt_rec)
  then have m: "mset [2, 0, 3, 1] = mset [0..<4]" by simp
  show ?thesis using l m apply_order_permutation [OF l m] by (simp add: upt_rec)
qed


section \<open>Layout conversion\<close>

lemma collect_map_Inr:
  "(\<And>x. x \<in> set xs \<Longrightarrow> g x = Inr (f x)) \<Longrightarrow> collect (map g xs) = Inr (map f xs)"
  by (induction xs) simp_all

lemma str_at_offset_consecutive_in_range:
  assumes "i < length (c_end_offsets c)"
  shows "\<exists>v. str_at_offset_consecutive c i cnt = Inr (c_parent c, v)"
  using assms by (auto simp add: str_at_offset_consecutive_def Let_def)

lemma populate_getter:
  assumes "\<And>i. i < cnt \<Longrightarrow> \<exists>v. getter i cnt = Inr (p, v)"
  shows "\<exists>ps. populate getter cnt = Inr ps \<and> length ps = cnt \<and>
           (\<forall>i<cnt. getter i cnt = Inr (p, ps ! i))"
proof -
  define f where "f i = (SOME v. getter i cnt = Inr (p, v))" for i
  have f: "getter i cnt = Inr (p, f i)" if "i < cnt" for i
    unfolding f_def using assms [OF that] by (rule someI_ex)
  have "populate getter cnt = Inr (map f [0..<cnt])"
    unfolding populate_def by (rule collect_map_Inr) (simp add: f)
  then show ?thesis using f by auto
qed

lemma convert_consecutive_ok:
  assumes "malloc (cnt * 16) \<noteq> 0" and "\<And>i. i < cnt \<Longrightarrow> \<exists>v. getter i cnt = Inr (p, v)"
  shows "\<exists>ps. convert_consecutive malloc strs cnt p getter =
            (Inr (), STRS_REORDERED \<lparr>r_count = cnt, r_parent = p, r_parts = ps\<rparr>) \<and>
          length ps = cnt \<and> (\<forall>i<cnt. getter i cnt = Inr (p, ps ! i))"
proof -
  from populate_getter [of cnt getter p, OF assms(2)] obtain ps where
    "populate getter cnt = Inr ps" "length ps = cnt" "\<forall>i<cnt. getter i cnt = Inr (p, ps ! i)"
    by blast
  then show ?thesis using assms(1) by (simp add: convert_consecutive_def)
qed

text \<open>
  C4. For a well-formed collection in a consecutive layout the conversion, given a
  successful allocation, returns success and leaves a reordered collection with the same
  count and parent whose \<open>i\<close>-th pair is what the accessor of the original layout gives
  for index \<open>i\<close>, for every \<open>i\<close> below the count. A collection that is already
  reordered or multi-source is returned unchanged, with success.
\<close>

theorem prepare_strings_for_reordering_equivalent:
  "(is_consecutive strs \<and> wf_Strs strs \<and> malloc (Strs_len strs * 16) \<noteq> 0 \<longrightarrow>
      (\<exists>getter ps. str_at_offset_getter strs = Inr getter \<and>
         prepare_strings_for_reordering malloc strs =
           (Inr (), STRS_REORDERED
              \<lparr>r_count = Strs_len strs, r_parent = Strs_parent strs, r_parts = ps\<rparr>) \<and>
         length ps = Strs_len strs \<and>
         (\<forall>i<Strs_len strs. getter i (Strs_len strs) = Inr (Strs_parent strs, ps ! i)))) \<and>
   (\<not> is_consecutive strs \<longrightarrow> prepare_strings_for_reordering malloc strs = (Inr (), strs))"
proof (cases strs)
  case (STRS_CONSECUTIVE_32 c)
  show ?thesis
  proof (intro conjI impI)
    assume a: "is_consecutive strs \<and> wf_Strs strs \<and> malloc (Strs_len strs * 16) \<noteq> 0"
    have wf: "c_count c = length (c_end_offsets c)"
      using a STRS_CONSECUTIVE_32 by (simp add: wf_Strs_def)
    have m: "malloc (c_count c * 16) \<noteq> 0"
      using a STRS_CONSECUTIVE_32 by (simp add: Strs_len_def)
    have g: "\<exists>v. str_at_offset_consecutive_32bit c i (c_count c) = Inr (c_parent c, v)"
      if "i < c_count c" for i
      using that wf str_at_offset_consecutive_in_range [of i c]
      by (simp add: str_at_offset_consecutive_32bit_def)
    have "\<exists>ps. convert_consecutive malloc strs (c_count c) (c_parent c)
              (str_at_offset_consecutive_32bit c) =
            (Inr (), STRS_REORDERED \<lparr>r_count = c_count c, r_parent = c_parent c, r_parts = ps\<rparr>) \<and>
          length ps = c_count c \<and>
          (\<forall>i<c_count c. str_at_offset_consecutive_32bit c i (c_count c) = Inr (c_parent c, ps ! i))"
      using m g by (rule convert_consecutive_ok)
    then show "\<exists>getter ps. str_at_offset_getter strs = Inr getter \<and>
         prepare_strings_for_reordering malloc strs =
           (Inr (), STRS_REORDERED
              \<lparr>r_count = Strs_len strs, r_parent = Strs_parent strs, r_parts = ps\<rparr>) \<and>
         length ps = Strs_len strs \<and>
         (\<forall>i<Strs_len strs. getter i (Strs_len strs) = Inr (Strs_parent strs, ps ! i))"
      using STRS_CONSECUTIVE_32
      by (simp add: prepare_strings_for_reordering_def str_at_offset_getter_def Strs_len_def
          Strs_parent_def)
  next
    assume "\<not> is_consecutive strs"
    then show "prepare_strings_for_reordering malloc strs = (Inr (), strs)"
      using STRS_CONSECUTIVE_32 by (simp add: is_consecutive_def)
  qed
next
  case (STRS_CONSECUTIVE_64 c)
  show ?thesis
  proof (intro conjI impI)
    assume a: "is_consecutive strs \<and> wf_Strs strs \<and> malloc (Strs_len strs * 16) \<noteq> 0"
    have wf: "c_count c = length (c_end_offsets c)"
      using a STRS_CONSECUTIVE_64 by (simp add: wf_Strs_def)
    have m: "malloc (c_count c * 16) \<noteq> 0"
      using a STRS_CONSECUTIVE_64 by (simp add: Strs_len_def)
    have g: "\<exists>v. str_at_offset_consecutive_64bit c i (c_count c) = Inr (c_parent c, v)"
      if "i < c_count c" for i
      using that wf str_at_offset_consecutive_in_range [of i c]
      by (simp add: str_at_offset_consecutive_64bit_def)
    have "\<exists>ps. convert_consecutive malloc strs (c_count c) (c_parent c)
              (str_at_offset_consecutive_64bit c) =
            (Inr (), STRS_REORDERED \<lparr>r_count = c_count c, r_parent = c_parent c, r_parts = ps\<rparr>) \<and>
          length ps = c_count c \<and>
          (\<forall>i<c_count c. str_at_offset_consecutive_64bit c i (c_count c) = Inr (c_parent c, ps ! i))"
      using m g by (rule convert_consecutive_ok)
    then show "\<exists>getter ps. str_at_offset_getter strs = Inr getter \<and>
         prepare_strings_for_reordering malloc strs =
           (Inr (), STRS_REORDERED
              \<lparr>r_count = Strs_len strs, r_parent = Strs_parent strs, r_parts = ps\<rparr>) \<and>
         length ps = Strs_len strs \<and>
         (\<forall>i<Strs_len strs. getter i (Strs_len strs) = Inr (Strs_parent strs, ps ! i))"
      using STRS_CONSECUTIVE_64
      by (simp add: prepare_strings_for_reordering_def str_at_offset_getter_def Strs_len_def
          Strs_parent_def)
  next
    assume "\<not> is_consecutive strs"
    then show "prepare_strings_for_reordering malloc strs = (Inr (), strs)"
      using STRS_CONSECUTIVE_64 by (simp add: is_consecutive_def)
  qed
next
  case (STRS_REORDERED r)
  then show ?thesis by (simp add: is_consecutive_def prepare_strings_for_reordering_def)
next
  case (STRS_MULTI_SOURCE r)
  then show ?thesis by (simp add: is_consecutive_def prepare_strings_for_reordering_def)
qed

theorem prepare_strings_for_reordering_equivalent_witness:
  "is_consecutive (STRS_CONSECUTIVE_32 abc_parts) \<and> wf_Strs (STRS_CONSECUTIVE_32 abc_parts) \<and>
   malloc_ok (Strs_len (STRS_CONSECUTIVE_32 abc_parts) * 16) \<noteq> 0 \<and>
   prepare_strings_for_reordering malloc_ok (STRS_CONSECUTIVE_32 abc_parts) =
     (Inr (), STRS_REORDERED \<lparr>r_count = 3, r_parent = 7, r_parts =
        [\<lparr>sv_start = 0, sv_length = 1\<rparr>, \<lparr>sv_start = 2, sv_length = 1\<rparr>,
         \<lparr>sv_start = 4, sv_length = 1\<rparr>]\<rparr>) \<and>
   \<not> is_consecutive (STRS_REORDERED no_parts) \<and>
   prepare_strings_for_reordering malloc_small (STRS_REORDERED no_parts) =
     (Inr (), STRS_REORDERED no_parts)"
  using prepare_strings_for_reordering_equivalent [of "STRS_CONSECUTIVE_32 abc_parts" malloc_ok]
    prepare_strings_for_reordering_equivalent [of "STRS_REORDERED no_parts" malloc_small]
  by (simp add: is_consecutive_def wf_Strs_def Strs_len_def abc_parts_def malloc_ok_def
      prepare_strings_for_reordering_def convert_consecutive_def populate_def upt_rec
      str_at_offset_consecutive_32bit_def str_at_offset_consecutive_def)

section \<open>One round of the split loop\<close>

lemma written_count: "(case oe of None \<Rightarrow> 0 | Some os \<Rightarrow> length os) = length (written oe)"
  by (simp add: written_def split: option.splits)

lemma split_loop_stop:
  assumes "\<not> (last_start \<le> length tx \<and> length (written oe) < maxsplit)"
  shows "split_loop malloc tx separator maxsplit bpo last_start oe cap res = (Inr oe, res)"
  by (subst split_loop.simps) (simp only: written_count Let_def assms if_False)

lemma split_loop_fail:
  assumes "last_start \<le> length tx" "length (written oe) < maxsplit"
    and "alloc_fails malloc bpo cap oe"
  shows "split_loop malloc tx separator maxsplit bpo last_start oe cap res =
     (Inl MemoryError,
      res\<lparr>live_buffers := live_buffers res - (if oe = None then 0 else 1),
          live_objects := live_objects res - 1\<rparr>)"
  using assms
  by (subst split_loop.simps) (auto simp add: written_count Let_def alloc_fails_def split: if_splits)

lemma split_loop_step:
  assumes "last_start \<le> length tx" "length (written oe) < maxsplit"
    and "\<not> alloc_fails malloc bpo cap oe"
  shows "split_loop malloc tx separator maxsplit bpo last_start oe cap res =
     split_loop malloc tx separator maxsplit bpo
       (last_start + offset_in_remaining tx separator last_start + length separator)
       (Some (written oe @ [word_of_nat (next_offset tx separator last_start)]))
       (if cap \<le> length (written oe) then (cap + 1) * 2 else cap)
       (if oe = None then res\<lparr>live_buffers := live_buffers res + 1\<rparr> else res)"
  using assms
  by (subst split_loop.simps)
    (auto simp add: written_count Let_def offset_in_remaining_def next_offset_def written_def
      alloc_fails_def split: option.splits if_splits)

lemma split_loop_failure:
  "split_loop malloc tx separator maxsplit bpo last_start oe cap res = (Inl e, res') \<Longrightarrow>
     e = MemoryError \<and>
     res' = res\<lparr>live_buffers := live_buffers res - (if oe = None then 0 else 1),
                live_objects := live_objects res - 1\<rparr>"
proof (induction "maxsplit - length (written oe)" arbitrary: last_start oe cap res
    rule: less_induct)
  case less
  show ?case
  proof (cases "last_start \<le> length tx \<and> length (written oe) < maxsplit")
    case False
    from split_loop_stop [OF this] less.prems show ?thesis by simp
  next
    case True
    then have c: "last_start \<le> length tx" "length (written oe) < maxsplit" by simp_all
    show ?thesis
    proof (cases "alloc_fails malloc bpo cap oe")
      case failed: True
      from split_loop_fail [OF c this] less.prems show ?thesis by simp
    next
      case ok: False
      let ?oe = "Some (written oe @ [word_of_nat (next_offset tx separator last_start)])"
      let ?res = "if oe = None then res\<lparr>live_buffers := live_buffers res + 1\<rparr> else res"
      have m: "maxsplit - length (written ?oe) < maxsplit - length (written oe)"
        using c by (simp add: written_def)
      have "split_loop malloc tx separator maxsplit bpo
          (last_start + offset_in_remaining tx separator last_start + length separator)
          ?oe (if cap \<le> length (written oe) then (cap + 1) * 2 else cap) ?res = (Inl e, res')"
        using split_loop_step [OF c ok] less.prems by simp
      from less.hyps [OF m this]
      have e: "e = MemoryError"
        and r: "res' = ?res\<lparr>live_buffers := live_buffers ?res - 1,
                  live_objects := live_objects ?res - 1\<rparr>"
        by simp_all
      show ?thesis using e r by (cases oe) simp_all
    qed
  qed
qed

lemma split_loop_succeeds:
  "\<forall>n. malloc n \<noteq> 0 \<Longrightarrow> oe = None \<longrightarrow> cap = 0 \<Longrightarrow>
    \<exists>os res'. split_loop malloc tx separator maxsplit bpo last_start oe cap res = (Inr os, res')"
proof (induction "maxsplit - length (written oe)" arbitrary: last_start oe cap res
    rule: less_induct)
  case less
  show ?case
  proof (cases "last_start \<le> length tx \<and> length (written oe) < maxsplit")
    case False
    from split_loop_stop [OF this] show ?thesis by simp
  next
    case True
    then have c: "last_start \<le> length tx" "length (written oe) < maxsplit" by simp_all
    have ok: "\<not> alloc_fails malloc bpo cap oe"
      using less.prems by (auto simp: alloc_fails_def)
    let ?oe = "Some (written oe @ [word_of_nat (next_offset tx separator last_start)])"
    have m: "maxsplit - length (written ?oe) < maxsplit - length (written oe)"
      using c by (simp add: written_def)
    show ?thesis
      unfolding split_loop_step [OF c ok]
      by (rule less.hyps [OF m less.prems(1)]) simp
  qed
qed

lemma Str_split_failure:
  assumes a: "Str_split_impl mem malloc res prnt tx separator keepseparator maxsplit = (Inl e, res')"
  shows "e = MemoryError \<and> res' = res"
proof -
  let ?res = "res\<lparr>live_objects := live_objects res + 1\<rparr>"
  let ?limit = "nat (maxsplit mod 2 ^ 64)"
  show ?thesis
  proof (cases "UINT32_MAX \<le> sv_length tx")
    case True
    with a have "split_loop malloc (view_bytes mem tx) (view_bytes mem separator) ?limit 8 0
        (None :: 64 word list option) 0 ?res = (Inl e, res')"
      by (auto simp: Str_split_impl_def Let_def split: prod.splits sum.splits)
    from split_loop_failure [OF this] show ?thesis by simp
  next
    case False
    with a have "split_loop malloc (view_bytes mem tx) (view_bytes mem separator) ?limit 4 0
        (None :: 32 word list option) 0 ?res = (Inl e, res')"
      by (auto simp: Str_split_impl_def Let_def split: prod.splits sum.splits)
    from split_loop_failure [OF this] show ?thesis by simp
  qed
qed

lemma Str_split_success:
  assumes m: "\<forall>n. malloc n \<noteq> 0"
  shows "\<exists>strs res'. Str_split_impl mem malloc res prnt tx separator keepseparator maxsplit
          = (Inr strs, res')"
proof -
  let ?res = "res\<lparr>live_objects := live_objects res + 1\<rparr>"
  let ?limit = "nat (maxsplit mod 2 ^ 64)"
  from split_loop_succeeds [OF m, of None 0 "view_bytes mem tx" "view_bytes mem separator" ?limit 8 0 ?res]
  obtain os8 :: "64 word list option" and r8 where
    s8: "split_loop malloc (view_bytes mem tx) (view_bytes mem separator) ?limit 8 0 None 0 ?res = (Inr os8, r8)"
    by auto
  from split_loop_succeeds [OF m, of None 0 "view_bytes mem tx" "view_bytes mem separator" ?limit 4 0 ?res]
  obtain os4 :: "32 word list option" and r4 where
    s4: "split_loop malloc (view_bytes mem tx) (view_bytes mem separator) ?limit 4 0 None 0 ?res = (Inr os4, r4)"
    by auto
  show ?thesis
    using s8 s4 by (simp add: Str_split_impl_def Let_def)
qed

lemma prepare_failure:
  assumes "is_consecutive strs" "malloc (Strs_len strs * 16) = 0"
  shows "prepare_strings_for_reordering malloc strs = (Inl MemoryError, strs)"
  using assms
  by (cases strs)
    (simp_all add: is_consecutive_def Strs_len_def prepare_strings_for_reordering_def
      convert_consecutive_def)

lemma view_abc: "view_bytes abc_mem abc_text = [0x61, 0x2C, 0x62, 0x2C, 0x63]"
  by (simp add: view_bytes_def abc_text_def abc_mem_def upt_rec)

lemma view_comma: "view_bytes abc_mem comma = [0x2C]"
  by (simp add: view_bytes_def comma_def abc_mem_def upt_rec)

lemma split_abc:
  "Str_split_impl abc_mem malloc_ok initial_resources 7 abc_text comma False PY_SSIZE_T_MAX =
     (Inr (STRS_CONSECUTIVE_32 abc_parts),
      \<lparr>parent_refcnt = 2, live_buffers = 1, live_objects = 1\<rparr>)"
  unfolding Str_split_impl_def view_abc view_comma
  by (simp add: split_loop.simps Let_def UINT32_MAX_def malloc_ok_def
      PY_SSIZE_T_MAX_def initial_resources_def abc_text_def comma_def abc_parts_def)

lemma split_abc_fails:
  "Str_split_impl abc_mem malloc_small initial_resources 7 abc_text comma False PY_SSIZE_T_MAX =
     (Inl MemoryError, initial_resources)"
  unfolding Str_split_impl_def view_abc view_comma
  by (simp add: split_loop.simps Let_def UINT32_MAX_def malloc_small_def
      PY_SSIZE_T_MAX_def initial_resources_def abc_text_def comma_def abc_parts_def)

text \<open>
  Every run of the loop that reaches a call of \<^verbatim>\<open>realloc\<close> which fails ends in
  failure, and a run in which every call it makes succeeds returns the offsets and leaves
  the reference count of the parent alone. The sizes asked for grow strictly, so no size
  is asked for twice and an allocator given as a function of the size can fail any one
  of the calls.
\<close>

lemma split_requests_stop:
  assumes "\<not> (last_start \<le> length tx \<and> cnt < maxsplit)"
  shows "split_requests tx separator maxsplit bpo last_start cnt cap = []"
  by (subst split_requests.simps) (simp only: assms if_False)

lemma split_requests_step:
  assumes "last_start \<le> length tx" "cnt < maxsplit"
  shows "split_requests tx separator maxsplit bpo last_start cnt cap =
     (if cap \<le> cnt then [(cap + 1) * 2 * bpo] else []) @
     split_requests tx separator maxsplit bpo
       (last_start + offset_in_remaining tx separator last_start + length separator)
       (cnt + 1) (if cap \<le> cnt then (cap + 1) * 2 else cap)"
  using assms by (subst split_requests.simps) (simp add: Let_def)

lemma split_loop_request_fails:
  "oe = None \<longrightarrow> cap = 0 \<Longrightarrow>
   \<exists>n \<in> set (split_requests tx separator maxsplit bpo last_start (length (written oe)) cap).
      malloc n = 0 \<Longrightarrow>
   \<exists>res'. split_loop malloc tx separator maxsplit bpo last_start oe cap res
      = (Inl MemoryError, res')"
proof (induction "maxsplit - length (written oe)" arbitrary: last_start oe cap res
    rule: less_induct)
  case less
  show ?case
  proof (cases "last_start \<le> length tx \<and> length (written oe) < maxsplit")
    case False
    from split_requests_stop [OF this] less.prems(2) show ?thesis by simp
  next
    case True
    then have c: "last_start \<le> length tx" "length (written oe) < maxsplit" by simp_all
    show ?thesis
    proof (cases "alloc_fails malloc bpo cap oe")
      case failed: True
      from split_loop_fail [OF c this] show ?thesis by simp
    next
      case ok: False
      let ?oe = "Some (written oe @ [word_of_nat (next_offset tx separator last_start)])"
      let ?cap = "if cap \<le> length (written oe) then (cap + 1) * 2 else cap"
      have m: "maxsplit - length (written ?oe) < maxsplit - length (written oe)"
        using c by (simp add: written_def)
      have l: "length (written ?oe) = length (written oe) + 1" by (simp add: written_def)
      have h: "cap \<le> length (written oe) \<Longrightarrow> malloc ((cap + 1) * 2 * bpo) \<noteq> 0"
        using ok by (simp add: alloc_fails_def)
      have "\<exists>n \<in> set (split_requests tx separator maxsplit bpo
          (last_start + offset_in_remaining tx separator last_start + length separator)
          (length (written ?oe)) ?cap). malloc n = 0"
        using less.prems(2) h unfolding split_requests_step [OF c] l
        by (auto split: if_splits)
      from less.hyps [OF m _ this] show ?thesis
        unfolding split_loop_step [OF c ok] by simp
    qed
  qed
qed

lemma split_loop_requests_ok:
  "oe = None \<longrightarrow> cap = 0 \<Longrightarrow>
   \<forall>n \<in> set (split_requests tx separator maxsplit bpo last_start (length (written oe)) cap).
      malloc n \<noteq> 0 \<Longrightarrow>
   \<exists>os res'. split_loop malloc tx separator maxsplit bpo last_start oe cap res = (Inr os, res')
      \<and> parent_refcnt res' = parent_refcnt res"
proof (induction "maxsplit - length (written oe)" arbitrary: last_start oe cap res
    rule: less_induct)
  case less
  show ?case
  proof (cases "last_start \<le> length tx \<and> length (written oe) < maxsplit")
    case False
    from split_loop_stop [OF this] show ?thesis by simp
  next
    case True
    then have c: "last_start \<le> length tx" "length (written oe) < maxsplit" by simp_all
    have ok: "\<not> alloc_fails malloc bpo cap oe"
      using less.prems unfolding split_requests_step [OF c]
      by (auto simp: alloc_fails_def split: if_splits)
    let ?oe = "Some (written oe @ [word_of_nat (next_offset tx separator last_start)])"
    let ?cap = "if cap \<le> length (written oe) then (cap + 1) * 2 else cap"
    let ?res = "if oe = None then res\<lparr>live_buffers := live_buffers res + 1\<rparr> else res"
    have m: "maxsplit - length (written ?oe) < maxsplit - length (written oe)"
      using c by (simp add: written_def)
    have l: "length (written ?oe) = length (written oe) + 1" by (simp add: written_def)
    have r: "\<forall>n \<in> set (split_requests tx separator maxsplit bpo
          (last_start + offset_in_remaining tx separator last_start + length separator)
          (length (written ?oe)) ?cap). malloc n \<noteq> 0"
      using less.prems(2) unfolding split_requests_step [OF c] l by simp
    have p: "parent_refcnt ?res = parent_refcnt res" by simp
    from less.hyps [OF m _ r, of ?res] show ?thesis
      unfolding split_loop_step [OF c ok] p by simp
  qed
qed

lemma Str_split_request_fails:
  assumes "\<exists>n \<in> set (Str_split_requests mem tx separator maxsplit). malloc n = 0"
  shows "Str_split_impl mem malloc res prnt tx separator keepseparator maxsplit
           = (Inl MemoryError, res)"
proof -
  let ?res = "res\<lparr>live_objects := live_objects res + 1\<rparr>"
  let ?limit = "nat (maxsplit mod 2 ^ 64)"
  have "\<exists>res'. Str_split_impl mem malloc res prnt tx separator keepseparator maxsplit
           = (Inl MemoryError, res')"
  proof (cases "UINT32_MAX \<le> sv_length tx")
    case True
    with assms have "\<exists>n \<in> set (split_requests (view_bytes mem tx) (view_bytes mem separator)
        ?limit 8 0 (length (written (None :: 64 word list option))) 0). malloc n = 0"
      by (simp add: Str_split_requests_def written_def)
    from split_loop_request_fails [OF _ this, of ?res] obtain res' where
      "split_loop malloc (view_bytes mem tx) (view_bytes mem separator) ?limit 8 0
        (None :: 64 word list option) 0 ?res = (Inl MemoryError, res')" by auto
    then show ?thesis using True by (simp add: Str_split_impl_def Let_def)
  next
    case False
    with assms have "\<exists>n \<in> set (split_requests (view_bytes mem tx) (view_bytes mem separator)
        ?limit 4 0 (length (written (None :: 32 word list option))) 0). malloc n = 0"
      by (simp add: Str_split_requests_def written_def)
    from split_loop_request_fails [OF _ this, of ?res] obtain res' where
      "split_loop malloc (view_bytes mem tx) (view_bytes mem separator) ?limit 4 0
        (None :: 32 word list option) 0 ?res = (Inl MemoryError, res')" by auto
    then show ?thesis using False by (simp add: Str_split_impl_def Let_def)
  qed
  then obtain res' where
    f: "Str_split_impl mem malloc res prnt tx separator keepseparator maxsplit
           = (Inl MemoryError, res')" ..
  from Str_split_failure [OF f] f show ?thesis by simp
qed

lemma Str_split_requests_ok:
  assumes "\<forall>n \<in> set (Str_split_requests mem tx separator maxsplit). malloc n \<noteq> 0"
  shows "\<exists>strs res'. Str_split_impl mem malloc res prnt tx separator keepseparator maxsplit
           = (Inr strs, res') \<and> parent_refcnt res' = parent_refcnt res + 1"
proof -
  let ?res = "res\<lparr>live_objects := live_objects res + 1\<rparr>"
  let ?limit = "nat (maxsplit mod 2 ^ 64)"
  show ?thesis
  proof (cases "UINT32_MAX \<le> sv_length tx")
    case True
    with assms have "\<forall>n \<in> set (split_requests (view_bytes mem tx) (view_bytes mem separator)
        ?limit 8 0 (length (written (None :: 64 word list option))) 0). malloc n \<noteq> 0"
      by (simp add: Str_split_requests_def written_def)
    from split_loop_requests_ok [OF _ this, of ?res] obtain os res' where
      "split_loop malloc (view_bytes mem tx) (view_bytes mem separator) ?limit 8 0
        (None :: 64 word list option) 0 ?res = (Inr os, res')"
      "parent_refcnt res' = parent_refcnt ?res" by auto
    then show ?thesis using True by (simp add: Str_split_impl_def Let_def)
  next
    case False
    with assms have "\<forall>n \<in> set (split_requests (view_bytes mem tx) (view_bytes mem separator)
        ?limit 4 0 (length (written (None :: 32 word list option))) 0). malloc n \<noteq> 0"
      by (simp add: Str_split_requests_def written_def)
    from split_loop_requests_ok [OF _ this, of ?res] obtain os res' where
      "split_loop malloc (view_bytes mem tx) (view_bytes mem separator) ?limit 4 0
        (None :: 32 word list option) 0 ?res = (Inr os, res')"
      "parent_refcnt res' = parent_refcnt ?res" by auto
    then show ?thesis using False by (simp add: Str_split_impl_def Let_def)
  qed
qed

lemma split_requests_above:
  "0 < bpo \<Longrightarrow> n \<in> set (split_requests tx separator maxsplit bpo last_start cnt cap) \<Longrightarrow>
     cap * bpo < n"
proof (induction "maxsplit - cnt" arbitrary: last_start cnt cap rule: less_induct)
  case less
  show ?case
  proof (cases "last_start \<le> length tx \<and> cnt < maxsplit")
    case False
    from split_requests_stop [OF this] less.prems show ?thesis by simp
  next
    case True
    then have c: "last_start \<le> length tx" "cnt < maxsplit" by simp_all
    have m: "maxsplit - (cnt + 1) < maxsplit - cnt" using c by simp
    let ?cap = "if cap \<le> cnt then (cap + 1) * 2 else cap"
    from less.prems(2) have "(cap \<le> cnt \<and> n = (cap + 1) * 2 * bpo) \<or>
        n \<in> set (split_requests tx separator maxsplit bpo
          (last_start + offset_in_remaining tx separator last_start + length separator)
          (cnt + 1) ?cap)"
      unfolding split_requests_step [OF c] by (auto split: if_splits)
    then show ?thesis
    proof
      assume "cap \<le> cnt \<and> n = (cap + 1) * 2 * bpo"
      then show ?thesis using less.prems(1) by simp
    next
      assume "n \<in> set (split_requests tx separator maxsplit bpo
          (last_start + offset_in_remaining tx separator last_start + length separator)
          (cnt + 1) ?cap)"
      from less.hyps [OF m less.prems(1) this] have "?cap * bpo < n" .
      have "cap \<le> ?cap" by simp
      then have "cap * bpo \<le> ?cap * bpo" by (rule mult_le_mono1)
      then show ?thesis using \<open>?cap * bpo < n\<close> by (rule le_less_trans)
    qed
  qed
qed

lemma split_requests_distinct:
  "0 < bpo \<Longrightarrow> distinct (split_requests tx separator maxsplit bpo last_start cnt cap)"
proof (induction "maxsplit - cnt" arbitrary: last_start cnt cap rule: less_induct)
  case less
  show ?case
  proof (cases "last_start \<le> length tx \<and> cnt < maxsplit")
    case False
    from split_requests_stop [OF this] show ?thesis by simp
  next
    case True
    then have c: "last_start \<le> length tx" "cnt < maxsplit" by simp_all
    have m: "maxsplit - (cnt + 1) < maxsplit - cnt" using c by simp
    let ?ls = "last_start + offset_in_remaining tx separator last_start + length separator"
    have d: "distinct (split_requests tx separator maxsplit bpo ?ls (cnt + 1) cap')" for cap'
      by (rule less.hyps [OF m less.prems])
    show ?thesis
    proof (cases "cap \<le> cnt")
      case True
      have "(cap + 1) * 2 * bpo \<notin> set (split_requests tx separator maxsplit bpo ?ls (cnt + 1)
          ((cap + 1) * 2))"
        using split_requests_above [OF less.prems, of "(cap + 1) * 2 * bpo" tx separator maxsplit
            ?ls "cnt + 1" "(cap + 1) * 2"] by auto
      then show ?thesis unfolding split_requests_step [OF c] using True d by simp
    next
      case False
      then show ?thesis unfolding split_requests_step [OF c] using d by simp
    qed
  qed
qed

lemma abc_requests: "Str_split_requests abc_mem abc_text comma PY_SSIZE_T_MAX = [8, 24]"
  unfolding Str_split_requests_def view_abc view_comma
  by (simp add: split_requests.simps Let_def UINT32_MAX_def PY_SSIZE_T_MAX_def abc_text_def
      offset_in_remaining_def)

text \<open>
  C9. When one of the allocations \<^verbatim>\<open>Str_split_\<close> asks for fails, the call fails
  with \<open>MemoryError\<close> and the reference count of the parent, the number of live offset
  buffers and the number of live objects are as they were before the call: the offsets
  accumulated so far are released and the parent's reference is not taken. When all of
  them succeed the call returns a collection and has taken one reference to the parent.
  These are the only failures: a call that fails has raised \<open>MemoryError\<close> and restored
  that state. A conversion whose allocation fails returns the failure and the collection
  as it was.
\<close>

theorem allocation_failure_leaves_state:
  "((\<exists>n \<in> set (Str_split_requests mem tx separator maxsplit). malloc n = 0) \<longrightarrow>
       Str_split_impl mem malloc res prnt tx separator keepseparator maxsplit
         = (Inl MemoryError, res)) \<and>
   ((\<forall>n \<in> set (Str_split_requests mem tx separator maxsplit). malloc n \<noteq> 0) \<longrightarrow>
       (\<exists>strs res'. Str_split_impl mem malloc res prnt tx separator keepseparator maxsplit
          = (Inr strs, res') \<and> parent_refcnt res' = parent_refcnt res + 1)) \<and>
   (\<forall>e res'. Str_split_impl mem malloc res prnt tx separator keepseparator maxsplit = (Inl e, res')
       \<longrightarrow> e = MemoryError \<and> res' = res) \<and>
   ((\<forall>n. malloc n \<noteq> 0) \<longrightarrow>
       (\<exists>strs res'. Str_split_impl mem malloc res prnt tx separator keepseparator maxsplit
          = (Inr strs, res'))) \<and>
   (is_consecutive strs \<and> malloc (Strs_len strs * 16) = 0 \<longrightarrow>
       prepare_strings_for_reordering malloc strs = (Inl MemoryError, strs))"
  using Str_split_request_fails [of mem tx separator maxsplit malloc res prnt keepseparator]
    Str_split_requests_ok [of mem tx separator maxsplit malloc res prnt keepseparator]
    Str_split_failure [of mem malloc res prnt tx separator keepseparator maxsplit]
    Str_split_success [of malloc mem res prnt tx separator keepseparator maxsplit]
    prepare_failure [of strs malloc]
  by blast

theorem allocation_failure_leaves_state_witness:
  "Str_split_requests abc_mem abc_text comma PY_SSIZE_T_MAX = [8, 24] \<and>
   malloc_small 8 \<noteq> 0 \<and> malloc_small 24 = 0 \<and>
   Str_split_impl abc_mem malloc_small initial_resources 7 abc_text comma False PY_SSIZE_T_MAX
     = (Inl MemoryError, initial_resources) \<and>
   malloc_ok 8 \<noteq> 0 \<and> malloc_ok 24 \<noteq> 0 \<and>
   Str_split_impl abc_mem malloc_ok initial_resources 7 abc_text comma False PY_SSIZE_T_MAX
     = (Inr (STRS_CONSECUTIVE_32 abc_parts),
        \<lparr>parent_refcnt = 2, live_buffers = 1, live_objects = 1\<rparr>) \<and>
   is_consecutive (STRS_CONSECUTIVE_32 abc_parts) \<and>
   malloc_small (Strs_len (STRS_CONSECUTIVE_32 abc_parts) * 16) = 0 \<and>
   prepare_strings_for_reordering malloc_small (STRS_CONSECUTIVE_32 abc_parts) =
     (Inl MemoryError, STRS_CONSECUTIVE_32 abc_parts)"
  using allocation_failure_leaves_state [of abc_mem abc_text comma PY_SSIZE_T_MAX malloc_small
      initial_resources 7 False "STRS_CONSECUTIVE_32 abc_parts"]
    allocation_failure_leaves_state [of abc_mem abc_text comma PY_SSIZE_T_MAX malloc_ok
      initial_resources 7 False "STRS_CONSECUTIVE_32 abc_parts"]
    abc_requests split_abc
  by (simp add: is_consecutive_def Strs_len_def abc_parts_def malloc_small_def malloc_ok_def)

section \<open>Splitting and joining again\<close>

lemma slice_of_pair [simp]: "slice_of tx (p, l) = take l (drop p tx)"
  by (simp add: slice_of_def)

lemma sz_find_Some:
  "sz_find h n = Some m \<Longrightarrow> m + length n \<le> length h \<and> take (length n) (drop m h) = n"
proof (induction h arbitrary: m)
  case Nil
  then show ?case by simp
next
  case (Cons x xs)
  show ?case
  proof (cases "n = [] \<or> take (length n) (x # xs) = n")
    case True
    with Cons.prems have "n \<noteq> []" "take (length n) (x # xs) = n" "m = 0"
      by (auto split: if_splits)
    moreover have "length n \<le> length (x # xs)"
    proof -
      have "length (take (length n) (x # xs)) = length n"
        using \<open>take (length n) (x # xs) = n\<close> by (simp only:)
      then show ?thesis unfolding length_take by linarith
    qed
    ultimately show ?thesis by simp
  next
    case False
    with Cons.prems obtain m' where "sz_find xs n = Some m'" "m = Suc m'"
      by (auto split: if_splits)
    with Cons.IH [of m'] show ?thesis by simp
  qed
qed

lemma join_parts_Cons: "ps \<noteq> [] \<Longrightarrow> join_parts sep (p # ps) = p @ sep @ join_parts sep ps"
  by (cases ps) simp_all

lemma pieces_length [simp]: "length (pieces seplen prev es) = length es"
  by (induction seplen prev es rule: pieces.induct) simp_all

lemma pieces_nth:
  "i < length es \<Longrightarrow>
     pieces seplen prev es ! i =
       ((if i = 0 then prev else es ! (i - 1)),
        es ! i - (if i = 0 then prev else es ! (i - 1))
          - (if i + 1 \<noteq> length es then seplen else 0))"
proof (induction seplen prev es arbitrary: i rule: pieces.induct)
  case (1 seplen prev)
  then show ?case by simp
next
  case (2 seplen prev e)
  then show ?case by simp
next
  case (3 seplen prev e e' es)
  show ?case
  proof (cases i)
    case 0
    then show ?thesis by simp
  next
    case (Suc k)
    with "3.prems" have "k < length (e' # es)" by simp
    from "3.IH" [OF this] Suc show ?thesis by (cases k) simp_all
  qed
qed

lemma chain_bounds:
  "chain tx sep prev es \<Longrightarrow> i < length es \<Longrightarrow>
     (if i = 0 then prev else es ! (i - 1)) + (if i + 1 \<noteq> length es then length sep else 0)
        \<le> es ! i \<and> es ! i \<le> length tx"
proof (induction tx sep prev es arbitrary: i rule: chain.induct)
  case (1 tx sep prev)
  then show ?case by simp
next
  case (2 tx sep prev e)
  then show ?case by simp
next
  case (3 tx sep prev e e' es)
  show ?case
  proof (cases i)
    case 0
    with "3.prems" show ?thesis by simp
  next
    case (Suc k)
    with "3.prems" have "k < length (e' # es)" "chain tx sep e (e' # es)" by simp_all
    from "3.IH" [OF this(2,1)] Suc show ?thesis by (cases k) simp_all
  qed
qed

lemma drop_split:
  assumes "prev \<le> a"
  shows "take (a - prev) (drop prev tx) @ drop a tx = drop prev tx"
proof -
  have "drop a tx = drop (a - prev) (drop prev tx)" using assms by simp
  then show ?thesis by (simp only: append_take_drop_id)
qed

lemma join_pieces:
  "chain tx sep prev es \<Longrightarrow>
     join_parts sep (map (slice_of tx) (pieces (length sep) prev es)) = drop prev tx"
proof (induction tx sep prev es rule: chain.induct)
  case (1 tx sep prev)
  then show ?case by simp
next
  case (2 tx sep prev e)
  then show ?case by simp
next
  case (3 tx sep prev e e' es)
  let ?sl = "length sep"
  from "3.prems" have b: "prev + ?sl \<le> e" "e \<le> length tx"
    and s: "take ?sl (drop (e - ?sl) tx) = sep" and c: "chain tx sep e (e' # es)"
    by simp_all
  have rest: "join_parts sep (map (slice_of tx) (pieces ?sl e (e' # es))) = drop e tx"
    by (rule "3.IH" [OF c])
  have "drop prev tx = take (e - ?sl - prev) (drop prev tx) @ drop (e - ?sl) tx"
    using b drop_split [of prev "e - ?sl" tx] by simp
  also have "drop (e - ?sl) tx = take ?sl (drop (e - ?sl) tx) @ drop e tx"
    using b drop_split [of "e - ?sl" e tx] by simp
  finally have "drop prev tx = take (e - prev - ?sl) (drop prev tx) @ sep @ drop e tx"
    using s by (simp add: add.commute)
  moreover have "pieces ?sl e (e' # es) \<noteq> []"
    by (cases es) simp_all
  ultimately show ?case
    using rest by (simp add: join_parts_Cons)
qed

lemma concat_pieces:
  "chain tx sep prev es \<Longrightarrow> concat (map (slice_of tx) (pieces 0 prev es)) = drop prev tx"
proof (induction tx sep prev es rule: chain.induct)
  case (1 tx sep prev)
  then show ?case by simp
next
  case (2 tx sep prev e)
  then show ?case by simp
next
  case (3 tx sep prev e e' es)
  from "3.prems" have b: "prev \<le> e" "e \<le> length tx" and c: "chain tx sep e (e' # es)"
    by simp_all
  have "drop prev tx = take (e - prev) (drop prev tx) @ drop e tx"
    using b drop_split [of prev e tx] by simp
  then show ?case using "3.IH" [OF c] by simp
qed


lemma unat_ucast_up:
  fixes x :: "'w::len word"
  assumes "LENGTH('w) \<le> 64"
  shows "unat (ucast x :: 64 word) = unat x"
proof -
  have "unat x < 2 ^ LENGTH('w)" by (rule unsigned_less)
  also have "(2::nat) ^ LENGTH('w) \<le> 2 ^ LENGTH(64)"
    using assms by (intro power_increasing) simp_all
  finally have "unat x < 2 ^ LENGTH(64)" .
  then show ?thesis by (simp add: unsigned_ucast_eq take_bit_nat_eq_self)
qed

lemma unat_sub_of_nat:
  fixes x :: "'w::len word"
  assumes "n \<le> unat x"
  shows "unat (x - word_of_nat n) = unat x - n"
proof -
  have n: "unat (word_of_nat n :: 'w word) = n" using assms by (rule le_unat_uoi)
  then have "(word_of_nat n :: 'w word) \<le> x" using assms by (simp add: word_le_nat_alt)
  then show ?thesis using n by (simp add: unat_sub)
qed

lemma accessor_nat:
  fixes c :: "'w::len word consecutive_slices_t"
  assumes w: "LENGTH('w) \<le> 64"
    and offs: "c_end_offsets c = map word_of_nat es"
    and i: "i < length es"
    and b: "es ! i < 2 ^ LENGTH('w)"
    and ord: "(if i = 0 then 0 else es ! (i - 1))
                + (if i + 1 \<noteq> cnt then c_separator_length c else 0) \<le> es ! i"
  shows "str_at_offset_consecutive c i cnt =
     Inr (c_parent c,
       \<lparr>sv_start = c_start c + (if i = 0 then 0 else es ! (i - 1)),
        sv_length = es ! i - (if i = 0 then 0 else es ! (i - 1))
           - (if i + 1 \<noteq> cnt then c_separator_length c else 0)\<rparr>)"
proof -
  define p where "p = (if i = 0 then 0 else es ! (i - 1))"
  define e where "e = es ! i"
  define s where "s = (if i + 1 \<noteq> cnt then c_separator_length c else 0)"
  have pe: "p + s \<le> e" using ord by (simp add: p_def e_def s_def)
  have e: "unat (word_of_nat e :: 'w word) = e"
    using b by (simp add: e_def unat_of_nat)
  have so: "(if i = 0 then 0 else c_end_offsets c ! (i - 1)) = (word_of_nat p :: 'w word)"
    using i offs by (auto simp: p_def)
  have eo: "c_end_offsets c ! i = (word_of_nat e :: 'w word)"
    using i offs by (simp add: e_def)
  have d: "unat (word_of_nat e - word_of_nat p :: 'w word) = e - p"
    using unat_sub_of_nat [of p "word_of_nat e :: 'w word"] pe e by simp
  have p: "unat (word_of_nat p :: 'w word) = p"
    using pe e le_unat_uoi [of p "word_of_nat e :: 'w word"] by simp
  have u: "unat (ucast (word_of_nat e - word_of_nat p :: 'w word) :: 64 word) = e - p"
    using unat_ucast_up [OF w] d by simp
  have l: "unat ((ucast (word_of_nat e - word_of_nat p :: 'w word) :: 64 word)
      - word_of_nat (c_separator_length c) * (if i + 1 \<noteq> cnt then 1 else 0)) = e - p - s"
  proof (cases "i + 1 \<noteq> cnt")
    case True
    then have "s = c_separator_length c" by (simp add: s_def)
    then have "c_separator_length c \<le> unat (ucast (word_of_nat e - word_of_nat p :: 'w word) :: 64 word)"
      using pe u by simp
    from unat_sub_of_nat [OF this] True u show ?thesis by (simp add: s_def)
  next
    case False
    then show ?thesis using u by (simp add: s_def)
  qed
  have "i < length (c_end_offsets c)" using i offs by simp
  then show ?thesis
    unfolding str_at_offset_consecutive_def Let_def so eo
    using l p by (auto simp: p_def e_def s_def)
qed

lemma view_bytes_slice:
  assumes "p + l \<le> sv_length text"
  shows "view_bytes mem \<lparr>sv_start = sv_start text + p, sv_length = l\<rparr> =
           slice_of (view_bytes mem text) (p, l)"
  using assms by (simp add: view_bytes_def take_map drop_map drop_upt take_upt add.assoc)


lemma view_bytes_length [simp]: "length (view_bytes mem v) = sv_length v"
  by (simp add: view_bytes_def)

lemma chain_nonempty: "chain tx sep prev es \<Longrightarrow> es \<noteq> []"
  by (cases es) simp_all

lemma chain_Cons:
  assumes "chain tx sep e es" "prev + length sep \<le> e" "e \<le> length tx"
    and "take (length sep) (drop (e - length sep) tx) = sep"
  shows "chain tx sep prev (e # es)"
  using assms by (cases es) simp_all

lemma split_loop_chain:
  fixes oe :: "'w::len word list option"
  assumes m: "\<forall>n. malloc n \<noteq> 0" and sep: "sep \<noteq> []" and lim: "length tx < maxsplit"
  shows "ls \<le> length tx \<Longrightarrow> oe = None \<longrightarrow> cap = 0 \<Longrightarrow> length (written oe) \<le> ls \<Longrightarrow>
     \<exists>es res'. split_loop malloc tx sep maxsplit bpo ls oe cap res =
         (Inr (Some (written oe @ map word_of_nat es)), res') \<and> chain tx sep ls es"
proof (induction "length tx - ls" arbitrary: ls oe cap res rule: less_induct)
  case less
  have c: "ls \<le> length tx" "length (written oe) < maxsplit"
    using less.prems lim by simp_all
  have ok: "\<not> alloc_fails malloc bpo cap oe"
    using m less.prems(2) by (auto simp: alloc_fails_def)
  let ?off = "offset_in_remaining tx sep ls"
  let ?next = "next_offset tx sep ls"
  let ?oe = "Some (written oe @ [word_of_nat ?next]) :: 'w word list option"
  let ?cap = "if cap \<le> length (written oe) then (cap + 1) * 2 else cap"
  let ?res = "if oe = None then res\<lparr>live_buffers := live_buffers res + 1\<rparr> else res"
  note step = split_loop_step [OF c ok, of sep res]
  show ?case
  proof (cases "sz_find (drop ls tx) sep")
    case None
    then have off: "?off = length tx - ls" and nxt: "?next = length tx"
      using c by (simp_all add: offset_in_remaining_def next_offset_def)
    have "\<not> (ls + ?off + length sep \<le> length tx \<and> length (written ?oe) < maxsplit)"
      using sep off c by simp
    from split_loop_stop [OF this]
    have "split_loop malloc tx sep maxsplit bpo ls oe cap res = (Inr ?oe, ?res)"
      unfolding step by simp
    moreover have "chain tx sep ls [length tx]" using c by simp
    ultimately show ?thesis using nxt by (intro exI [of _ "[length tx]"]) simp
  next
    case (Some k)
    from sz_find_Some [OF this]
    have k: "k + length sep \<le> length tx - ls" "take (length sep) (drop (ls + k) tx) = sep"
      by (simp_all add: add.commute)
    have off: "?off = k" and nxt: "?next = ls + k + length sep"
      using Some by (simp_all add: offset_in_remaining_def next_offset_def)
    let ?ls = "ls + k + length sep"
    have ls': "?ls \<le> length tx" using k c by simp
    have lt: "length tx - ?ls < length tx - ls" using sep ls' by (cases sep) simp_all
    have cnt: "length (written ?oe) \<le> ?ls"
      using less.prems(3) sep by (cases sep) (simp_all add: written_def)
    have "?oe = None \<longrightarrow> ?cap = 0" by simp
    from less.hyps [OF lt ls' this cnt, of ?res]
    obtain es res' where
      r: "split_loop malloc tx sep maxsplit bpo ?ls ?oe ?cap ?res =
            (Inr (Some (written ?oe @ map word_of_nat es)), res')"
      and ch: "chain tx sep ?ls es"
      by blast
    have "split_loop malloc tx sep maxsplit bpo ls oe cap res =
            (Inr (Some (written oe @ map word_of_nat (?ls # es))), res')"
      unfolding step off using r nxt by (simp add: written_def)
    moreover have "chain tx sep ls (?ls # es)"
      using ch ls' k by (intro chain_Cons) simp_all
    ultimately show ?thesis by blast
  qed
qed

lemma consecutive_parts:
  fixes c :: "'w::len word consecutive_slices_t"
  assumes w: "LENGTH('w) \<le> 64" and ch: "chain (view_bytes mem text) sep 0 es"
    and len: "sv_length text < 2 ^ LENGTH('w)"
    and c: "c = \<lparr>c_count = length es, c_separator_length = seplen, c_parent = prnt,
                 c_start = sv_start text, c_end_offsets = map word_of_nat es\<rparr>"
    and seplen: "seplen \<le> length sep"
  shows "\<exists>parts. populate (str_at_offset_consecutive c) (length es) = Inr parts \<and>
           map (view_bytes mem) parts
             = map (slice_of (view_bytes mem text)) (pieces seplen 0 es)"
proof -
  let ?tx = "view_bytes mem text"
  define pc where "pc i = pieces seplen 0 es ! i" for i
  define part where "part i = \<lparr>sv_start = sv_start text + fst (pc i), sv_length = snd (pc i)\<rparr>" for i
  have bounds: "(if i = 0 then 0 else es ! (i - 1)) + (if i + 1 \<noteq> length es then seplen else 0)
        \<le> es ! i \<and> es ! i \<le> sv_length text" if "i < length es" for i
    using chain_bounds [OF ch that] seplen by (auto split: if_splits)
  have acc: "str_at_offset_consecutive c i (length es) = Inr (prnt, part i)" if "i < length es" for i
  proof -
    have "es ! i < 2 ^ LENGTH('w)" using bounds [OF that] len by simp
    moreover have "c_separator_length c = seplen" using c by simp
    then have "(if i = 0 then 0 else es ! (i - 1))
        + (if i + 1 \<noteq> length es then c_separator_length c else 0) \<le> es ! i"
      using bounds [OF that] by (simp only:)
    moreover have "c_end_offsets c = map word_of_nat es" using c by simp
    ultimately have "str_at_offset_consecutive c i (length es) =
       Inr (c_parent c,
         \<lparr>sv_start = c_start c + (if i = 0 then 0 else es ! (i - 1)),
          sv_length = es ! i - (if i = 0 then 0 else es ! (i - 1))
             - (if i + 1 \<noteq> length es then c_separator_length c else 0)\<rparr>)"
      using w that by (intro accessor_nat)
    then show ?thesis
      using c that by (simp add: part_def pc_def pieces_nth)
  qed
  have "populate (str_at_offset_consecutive c) (length es) = Inr (map part [0..<length es])"
    unfolding populate_def by (rule collect_map_Inr) (simp add: acc)
  moreover have "map (view_bytes mem) (map part [0..<length es])
      = map (slice_of ?tx) (pieces seplen 0 es)"
  proof (rule nth_equalityI)
    show "length (map (view_bytes mem) (map part [0..<length es]))
        = length (map (slice_of ?tx) (pieces seplen 0 es))"
      by simp
  next
    fix i assume "i < length (map (view_bytes mem) (map part [0..<length es]))"
    then have i: "i < length es" by simp
    have e: "es ! i \<le> sv_length text"
      and pe: "(if i = 0 then 0 else es ! (i - 1)) \<le> es ! i"
      using bounds [OF i] by simp_all
    have "fst (pc i) + snd (pc i) \<le> sv_length text"
      using e pe by (auto simp add: pc_def pieces_nth [OF i])
    from view_bytes_slice [OF this, of mem]
    have "view_bytes mem (part i) = slice_of ?tx (pc i)"
      by (simp add: part_def)
    then show "map (view_bytes mem) (map part [0..<length es]) ! i
        = map (slice_of ?tx) (pieces seplen 0 es) ! i"
      using i by (simp add: pc_def)
  qed
  ultimately show ?thesis by blast
qed


lemma pieces_rejoin:
  assumes "chain tx sep 0 es"
  shows "(if keepseparator then concat (map (slice_of tx) (pieces 0 0 es))
          else join_parts sep (map (slice_of tx) (pieces (length sep) 0 es))) = tx"
  using join_pieces [OF assms] concat_pieces [OF assms] by simp

lemma PY_SSIZE_T_MAX_limit: "nat (PY_SSIZE_T_MAX mod 2 ^ 64) = nat PY_SSIZE_T_MAX"
  by (simp add: PY_SSIZE_T_MAX_def)

lemma Str_split_rejoin:
  assumes m: "\<forall>n. malloc n \<noteq> 0" and sep: "0 < sv_length separator"
    and len: "sv_length text < nat PY_SSIZE_T_MAX"
  shows "\<exists>strs res' parts.
     Str_split_impl mem malloc res prnt text separator keepseparator PY_SSIZE_T_MAX
       = (Inr strs, res') \<and>
     Strs_parts strs = Inr parts \<and>
     (if keepseparator then concat (map (view_bytes mem) parts)
      else join_parts (view_bytes mem separator) (map (view_bytes mem) parts))
       = view_bytes mem text"
proof -
  let ?tx = "view_bytes mem text" and ?sep = "view_bytes mem separator"
  let ?limit = "nat (PY_SSIZE_T_MAX mod 2 ^ 64)"
  let ?res = "res\<lparr>live_objects := live_objects res + 1\<rparr>"
  define seplen where "seplen = (if keepseparator then 0 else 1) * sv_length separator"
  have sepne: "?sep \<noteq> []" using sep by (metis view_bytes_length length_0_conv less_numeral_extra(3))
  have lim: "length ?tx < ?limit" using len PY_SSIZE_T_MAX_limit by simp
  have sl: "seplen \<le> length ?sep" by (simp add: seplen_def)
  have rejoin: "(if keepseparator then concat (map (slice_of ?tx) (pieces seplen 0 es))
          else join_parts ?sep (map (slice_of ?tx) (pieces seplen 0 es))) = ?tx"
    if "chain ?tx ?sep 0 es" for es
    using pieces_rejoin [OF that, of keepseparator]
    by (cases keepseparator) (simp_all add: seplen_def)
  show ?thesis
  proof (cases "UINT32_MAX \<le> sv_length text")
    case True
    from split_loop_chain [OF m sepne lim, of 0 "None :: 64 word list option" 0 8 ?res]
    obtain es res' where
      r: "split_loop malloc ?tx ?sep ?limit 8 0 (None :: 64 word list option) 0 ?res
            = (Inr (Some (map word_of_nat es)), res')"
      and ch: "chain ?tx ?sep 0 es"
      by (auto simp: written_def)
    define c :: "64 word consecutive_slices_t" where
      "c = \<lparr>c_count = length es, c_separator_length = seplen, c_parent = prnt,
            c_start = sv_start text, c_end_offsets = map word_of_nat es\<rparr>"
    have "sv_length text < 2 ^ LENGTH(64)"
      using len by (simp add: PY_SSIZE_T_MAX_def)
    from consecutive_parts [OF _ ch this c_def sl]
    obtain parts where
      p: "populate (str_at_offset_consecutive c) (length es) = Inr parts"
      and v: "map (view_bytes mem) parts = map (slice_of ?tx) (pieces seplen 0 es)"
      by auto
    have "str_at_offset_consecutive_64bit c = str_at_offset_consecutive c"
      by (intro ext) (simp add: str_at_offset_consecutive_64bit_def)
    then have "Strs_parts (STRS_CONSECUTIVE_64 c) = Inr parts"
      using p by (simp add: Strs_parts_def str_at_offset_getter_def Strs_len_def c_def)
    moreover have "Str_split_impl mem malloc res prnt text separator keepseparator PY_SSIZE_T_MAX
        = (Inr (STRS_CONSECUTIVE_64 c), res'\<lparr>parent_refcnt := parent_refcnt res' + 1\<rparr>)"
      using True r by (simp add: Str_split_impl_def Let_def c_def seplen_def)
    ultimately show ?thesis using rejoin [OF ch] v by (auto simp del: One_nat_def)
  next
    case False
    from split_loop_chain [OF m sepne lim, of 0 "None :: 32 word list option" 0 4 ?res]
    obtain es res' where
      r: "split_loop malloc ?tx ?sep ?limit 4 0 (None :: 32 word list option) 0 ?res
            = (Inr (Some (map word_of_nat es)), res')"
      and ch: "chain ?tx ?sep 0 es"
      by (auto simp: written_def)
    define c :: "32 word consecutive_slices_t" where
      "c = \<lparr>c_count = length es, c_separator_length = seplen, c_parent = prnt,
            c_start = sv_start text, c_end_offsets = map word_of_nat es\<rparr>"
    have "sv_length text < 2 ^ LENGTH(32)"
      using False by (simp add: UINT32_MAX_def)
    from consecutive_parts [OF _ ch this c_def sl]
    obtain parts where
      p: "populate (str_at_offset_consecutive c) (length es) = Inr parts"
      and v: "map (view_bytes mem) parts = map (slice_of ?tx) (pieces seplen 0 es)"
      by auto
    have "str_at_offset_consecutive_32bit c = str_at_offset_consecutive c"
      by (intro ext) (simp add: str_at_offset_consecutive_32bit_def)
    then have "Strs_parts (STRS_CONSECUTIVE_32 c) = Inr parts"
      using p by (simp add: Strs_parts_def str_at_offset_getter_def Strs_len_def c_def)
    moreover have "Str_split_impl mem malloc res prnt text separator keepseparator PY_SSIZE_T_MAX
        = (Inr (STRS_CONSECUTIVE_32 c), res'\<lparr>parent_refcnt := parent_refcnt res' + 1\<rparr>)"
      using False r by (simp add: Str_split_impl_def Let_def c_def seplen_def)
    ultimately show ?thesis using rejoin [OF ch] v by (auto simp del: One_nat_def)
  qed
qed

text \<open>
  C3. For every source text and every single-byte separator, with the default
  \<open>maxsplit\<close> and allocations that succeed, \<^verbatim>\<open>Str_split_\<close> returns a collection
  whose parts, read through the accessor, give the text back: joined with the separator
  put back between consecutive parts when \<open>keepseparator\<close> is false, merely
  concatenated when it is true (every part but the last then ends with its separator).
\<close>

theorem split_parts_rejoin_to_source:
  assumes "\<forall>n. malloc n \<noteq> 0" and "sv_length separator = 1"
    and "sv_length text < nat PY_SSIZE_T_MAX"
  shows "\<exists>strs res' parts.
     Str_split_impl mem malloc res prnt text separator keepseparator PY_SSIZE_T_MAX
       = (Inr strs, res') \<and>
     Strs_parts strs = Inr parts \<and>
     (if keepseparator then concat (map (view_bytes mem) parts)
      else join_parts (view_bytes mem separator) (map (view_bytes mem) parts))
       = view_bytes mem text"
  using assms by (intro Str_split_rejoin) simp_all

lemma abc_parts_list:
  "Strs_parts (STRS_CONSECUTIVE_32 abc_parts) =
     Inr [\<lparr>sv_start = 0, sv_length = 1\<rparr>, \<lparr>sv_start = 2, sv_length = 1\<rparr>,
          \<lparr>sv_start = 4, sv_length = 1\<rparr>]"
  by (simp add: Strs_parts_def str_at_offset_getter_def Strs_len_def abc_parts_def populate_def
      upt_rec str_at_offset_consecutive_32bit_def str_at_offset_consecutive_def)

theorem split_parts_rejoin_to_source_witness:
  "(\<forall>n. malloc_ok n \<noteq> 0) \<and> sv_length comma = 1 \<and> sv_length abc_text < nat PY_SSIZE_T_MAX \<and>
   fst (Str_split_impl abc_mem malloc_ok initial_resources 7 abc_text comma False PY_SSIZE_T_MAX)
     = Inr (STRS_CONSECUTIVE_32 abc_parts) \<and>
   Strs_parts (STRS_CONSECUTIVE_32 abc_parts) =
     Inr [\<lparr>sv_start = 0, sv_length = 1\<rparr>, \<lparr>sv_start = 2, sv_length = 1\<rparr>,
          \<lparr>sv_start = 4, sv_length = 1\<rparr>] \<and>
   join_parts (view_bytes abc_mem comma)
     (map (view_bytes abc_mem) [\<lparr>sv_start = 0, sv_length = 1\<rparr>, \<lparr>sv_start = 2, sv_length = 1\<rparr>,
          \<lparr>sv_start = 4, sv_length = 1\<rparr>]) = view_bytes abc_mem abc_text"
proof -
  have h: "\<forall>n. malloc_ok n \<noteq> 0" "sv_length comma = 1" "sv_length abc_text < nat PY_SSIZE_T_MAX"
    by (simp_all add: malloc_ok_def comma_def abc_text_def PY_SSIZE_T_MAX_def)
  from split_parts_rejoin_to_source [OF h, of abc_mem initial_resources 7 False]
  show ?thesis using h by (simp add: split_abc abc_parts_list)
qed

section \<open>Sorting and the order query\<close>

lemma sz_order_Cons_same: "sz_order (x # xs) (x # ys) = sz_order xs ys"
  by (simp add: sz_order_def Let_def)

lemma sz_order_le: "sz_order a b \<le> 0 \<longleftrightarrow> a \<le> b"
proof (induction a arbitrary: b)
  case Nil
  then show ?case by (simp add: sz_order_def)
next
  case (Cons x xs)
  show ?case
  proof (cases b)
    case Nil
    then show ?thesis by (simp add: sz_order_def)
  next
    case (Cons y ys)
    consider "x < y" | "y < x" | "x = y" by fastforce
    then show ?thesis
    proof cases
      case 1
      then show ?thesis using Cons by (simp add: sz_order_def Let_def)
    next
      case 2
      then have "\<not> x < y" "x \<noteq> y" by auto
      then show ?thesis using Cons 2 by (simp add: sz_order_def Let_def)
    next
      case 3
      then show ?thesis using Cons Cons.IH by (simp add: sz_order_Cons_same)
    qed
  qed
qed

lemma sorted_wrt_sz_order:
  "sorted_wrt (\<lambda>a b. sz_order a b \<le> 0) xs \<longleftrightarrow> sorted xs"
  by (simp add: sz_order_le)

lemma map_nth_upt: "length ord = n \<Longrightarrow> map (\<lambda>i. f (ord ! i)) [0..<n] = map f ord"
  by (auto intro: nth_equalityI)

lemma view_eta [simp]: "\<lparr>sv_start = sv_start v, sv_length = sv_length v\<rparr> = v"
  by simp

lemma Strs_parts_reordered:
  assumes "r_count r = length (r_parts r)"
  shows "Strs_parts (STRS_REORDERED r) = Inr (r_parts r)"
proof -
  have "populate (str_at_offset_reordered r) (length (r_parts r)) =
      Inr (map (\<lambda>i. r_parts r ! i) [0..<length (r_parts r)])"
    unfolding populate_def
    by (rule collect_map_Inr) (simp add: str_at_offset_reordered_def)
  then show ?thesis
    using assms by (simp add: Strs_parts_def str_at_offset_getter_def Strs_len_def map_nth)
qed

lemma populate_of_getter:
  assumes "length ps = cnt" and "\<forall>i<cnt. getter i cnt = Inr (p, ps ! i)"
  shows "populate getter cnt = Inr ps"
proof -
  have "populate getter cnt = Inr (map (\<lambda>i. ps ! i) [0..<cnt])"
    unfolding populate_def by (rule collect_map_Inr) (simp add: assms(2))
  also have "map (\<lambda>i. ps ! i) [0..<cnt] = ps"
    unfolding assms(1) [symmetric] by (rule map_nth)
  finally show ?thesis .
qed

lemma prepare_gives_reordered:
  assumes wf: "wf_Strs self" and nm: "\<not> is_multi_source self" and m: "\<forall>n. malloc n \<noteq> 0"
  shows "\<exists>r. prepare_strings_for_reordering malloc self = (Inr (), STRS_REORDERED r) \<and>
           r_count r = length (r_parts r) \<and> length (r_parts r) = Strs_len self \<and>
           Strs_parts self = Inr (r_parts r)"
proof (cases self)
  case (STRS_CONSECUTIVE_32 c)
  have g: "\<exists>v. str_at_offset_consecutive_32bit c i (c_count c) = Inr (c_parent c, v)"
    if "i < c_count c" for i
    using that wf STRS_CONSECUTIVE_32 str_at_offset_consecutive_in_range [of i c]
    by (simp add: str_at_offset_consecutive_32bit_def wf_Strs_def)
  have "malloc (c_count c * 16) \<noteq> 0" using m by simp
  then have "\<exists>ps. convert_consecutive malloc self (c_count c) (c_parent c)
              (str_at_offset_consecutive_32bit c) =
            (Inr (), STRS_REORDERED \<lparr>r_count = c_count c, r_parent = c_parent c, r_parts = ps\<rparr>) \<and>
          length ps = c_count c \<and>
          (\<forall>i<c_count c. str_at_offset_consecutive_32bit c i (c_count c) = Inr (c_parent c, ps ! i))"
    using g by (rule convert_consecutive_ok)
  then obtain ps where
    cv: "convert_consecutive malloc self (c_count c) (c_parent c)
              (str_at_offset_consecutive_32bit c) =
            (Inr (), STRS_REORDERED \<lparr>r_count = c_count c, r_parent = c_parent c, r_parts = ps\<rparr>)"
    and l: "length ps = c_count c"
    and a: "\<forall>i<c_count c. str_at_offset_consecutive_32bit c i (c_count c) = Inr (c_parent c, ps ! i)"
    by blast
  have "populate (str_at_offset_consecutive_32bit c) (c_count c) = Inr ps"
    using l a by (rule populate_of_getter)
  then have "Strs_parts self = Inr ps"
    using STRS_CONSECUTIVE_32 by (simp add: Strs_parts_def str_at_offset_getter_def Strs_len_def)
  then show ?thesis
    using STRS_CONSECUTIVE_32 cv l
    by (simp add: prepare_strings_for_reordering_def Strs_len_def)
next
  case (STRS_CONSECUTIVE_64 c)
  have g: "\<exists>v. str_at_offset_consecutive_64bit c i (c_count c) = Inr (c_parent c, v)"
    if "i < c_count c" for i
    using that wf STRS_CONSECUTIVE_64 str_at_offset_consecutive_in_range [of i c]
    by (simp add: str_at_offset_consecutive_64bit_def wf_Strs_def)
  have "malloc (c_count c * 16) \<noteq> 0" using m by simp
  then have "\<exists>ps. convert_consecutive malloc self (c_count c) (c_parent c)
              (str_at_offset_consecutive_64bit c) =
            (Inr (), STRS_REORDERED \<lparr>r_count = c_count c, r_parent = c_parent c, r_parts = ps\<rparr>) \<and>
          length ps = c_count c \<and>
          (\<forall>i<c_count c. str_at_offset_consecutive_64bit c i (c_count c) = Inr (c_parent c, ps ! i))"
    using g by (rule convert_consecutive_ok)
  then obtain ps where
    cv: "convert_consecutive malloc self (c_count c) (c_parent c)
              (str_at_offset_consecutive_64bit c) =
            (Inr (), STRS_REORDERED \<lparr>r_count = c_count c, r_parent = c_parent c, r_parts = ps\<rparr>)"
    and l: "length ps = c_count c"
    and a: "\<forall>i<c_count c. str_at_offset_consecutive_64bit c i (c_count c) = Inr (c_parent c, ps ! i)"
    by blast
  have "populate (str_at_offset_consecutive_64bit c) (c_count c) = Inr ps"
    using l a by (rule populate_of_getter)
  then have "Strs_parts self = Inr ps"
    using STRS_CONSECUTIVE_64 by (simp add: Strs_parts_def str_at_offset_getter_def Strs_len_def)
  then show ?thesis
    using STRS_CONSECUTIVE_64 cv l
    by (simp add: prepare_strings_for_reordering_def Strs_len_def)
next
  case (STRS_REORDERED r)
  then show ?thesis
    using wf Strs_parts_reordered [of r]
    by (simp add: prepare_strings_for_reordering_def Strs_len_def wf_Strs_def)
next
  case (STRS_MULTI_SOURCE r)
  then show ?thesis using nm by (simp add: is_multi_source_def)
qed

lemma sorted_order_props:
  "mset (sorted_order mem parts) = mset [0..<length parts]"
  "length (sorted_order mem parts) = length parts"
  "distinct (sorted_order mem parts)"
  "set (sorted_order mem parts) \<subseteq> {..<length parts}"
  "sorted (map (view_bytes mem) (map ((!) parts) (sorted_order mem parts)))"
proof -
  show m: "mset (sorted_order mem parts) = mset [0..<length parts]"
    by (simp add: sorted_order_def)
  show "length (sorted_order mem parts) = length parts"
    by (simp add: sorted_order_def)
  show "distinct (sorted_order mem parts)"
    by (simp add: sorted_order_def)
  show "set (sorted_order mem parts) \<subseteq> {..<length parts}"
    by (auto simp add: sorted_order_def)
  have "sorted (map (\<lambda>i. view_bytes mem (parts ! i)) (sorted_order mem parts))"
    unfolding sorted_order_def by (rule sorted_sort_key)
  then show "sorted (map (view_bytes mem) (map ((!) parts) (sorted_order mem parts)))"
    by (simp add: comp_def)
qed

lemma Strs_sort_impl_reordered:
  assumes "r_count r = length (r_parts r)" and "sv_start tm \<noteq> 0" and "\<forall>n. malloc n \<noteq> 0"
  shows "\<exists>tm'. Strs_sort_impl mem malloc tm (STRS_REORDERED r) =
           (Inr (r_parts r, sorted_order mem (r_parts r), length (r_parts r)), STRS_REORDERED r, tm')
         \<and> sv_start tm' \<noteq> 0"
  using assms
  by (simp add: Strs_sort_impl_def prepare_strings_for_reordering_def reordered_of_def Let_def
      sz_sort_def sorted_order_def)


lemma Strs_sort_impl_after_prepare:
  assumes "prepare_strings_for_reordering malloc self = (Inr (), STRS_REORDERED r)"
  shows "Strs_sort_impl mem malloc tm self = Strs_sort_impl mem malloc tm (STRS_REORDERED r)"
  using assms by (simp add: Strs_sort_impl_def prepare_strings_for_reordering_def)

lemma Strs_order_reordered:
  assumes "r_count r = length (r_parts r)" and "sv_start tm \<noteq> 0" and "\<forall>n. malloc n \<noteq> 0"
  shows "\<exists>tm'. Strs_order mem malloc tm (STRS_REORDERED r) False =
           (Inr (sorted_order mem (r_parts r)), STRS_REORDERED r, tm')"
proof -
  from Strs_sort_impl_reordered [OF assms, of mem] obtain tm' where
    "Strs_sort_impl mem malloc tm (STRS_REORDERED r) =
       (Inr (r_parts r, sorted_order mem (r_parts r), length (r_parts r)), STRS_REORDERED r, tm')"
    by blast
  then show ?thesis by (simp add: Strs_order_def sorted_order_props(2))
qed

lemma Strs_sort_reordered:
  assumes "r_count r = length (r_parts r)" and "sv_start tm \<noteq> 0" and "\<forall>n. malloc n \<noteq> 0"
  shows "\<exists>tm'. Strs_sort mem malloc tm (STRS_REORDERED r) False =
           Some (Inr (),
             STRS_REORDERED (r\<lparr>r_parts := map ((!) (r_parts r)) (sorted_order mem (r_parts r))\<rparr>),
             tm') \<and> sv_start tm' \<noteq> 0"
proof -
  let ?ps = "r_parts r" and ?ord = "sorted_order mem (r_parts r)"
  from Strs_sort_impl_reordered [OF assms, of mem] obtain tm' where
    i: "Strs_sort_impl mem malloc tm (STRS_REORDERED r) =
       (Inr (?ps, ?ord, length ?ps), STRS_REORDERED r, tm')" and t: "sv_start tm' \<noteq> 0"
    by blast
  have "apply_order ?ps ?ord (length ?ps) =
      Some (Inr (map (\<lambda>i. ?ps ! (?ord ! i)) [0..<length ?ps], [0..<length ?ps]))"
    by (rule apply_order_permutes) (simp_all add: sorted_order_props)
  also have "map (\<lambda>i. ?ps ! (?ord ! i)) [0..<length ?ps] = map ((!) ?ps) ?ord"
    by (rule map_nth_upt) (simp add: sorted_order_props)
  finally show ?thesis using i t by (simp add: Strs_sort_def with_parts_def)
qed

lemma sorted_mset_unique:
  fixes xs ys :: "'a::linorder list"
  assumes "sorted xs" "sorted ys" "mset xs = mset ys"
  shows "xs = ys"
proof -
  have "sort ys = xs" using assms(1,3) by (intro properties_for_sort) simp_all
  moreover have "sort ys = ys" using assms(2) by (rule sorted_sort_id)
  ultimately show ?thesis by simp
qed

lemma mset_permuted:
  assumes "mset ord = mset [0..<length ps]"
  shows "mset (map ((!) ps) ord) = mset ps"
proof -
  have "mset (map ((!) ps) ord) = image_mset ((!) ps) (mset ord)" by simp
  also have "\<dots> = mset (map ((!) ps) [0..<length ps])" unfolding assms by simp
  also have "\<dots> = mset ps" by (simp add: map_nth)
  finally show ?thesis .
qed

text \<open>
  C6. For a well-formed collection in one of the three implemented layouts, with
  allocations that succeed and the scratch buffer allocated: \<^verbatim>\<open>order()\<close> returns
  \<open>count\<close> indices that are a permutation of \<open>[0, count)\<close>; after
  \<^verbatim>\<open>sort()\<close> the parts are a rearrangement of the parts before and their bytes are
  non-decreasing under the comparator; a second \<^verbatim>\<open>sort()\<close> leaves the bytes of
  the part at every index as they were. (Parts with equal bytes may trade places in a sort
  that is not stable, so the statement is about what each part reads as.)
\<close>

theorem sort_and_order:
  assumes wf: "wf_Strs self" and nm: "\<not> is_multi_source self"
    and m: "\<forall>n. malloc n \<noteq> 0" and tm: "sv_start temporary_memory \<noteq> 0"
  shows "\<exists>order self' tm' parts0 self1 tm1 parts1 self2 tm2 parts2.
      Strs_order mem malloc temporary_memory self False = (Inr order, self', tm') \<and>
      length order = Strs_len self \<and> mset order = mset [0..<Strs_len self] \<and>
      Strs_parts self = Inr parts0 \<and>
      Strs_sort mem malloc temporary_memory self False = Some (Inr (), self1, tm1) \<and>
      Strs_parts self1 = Inr parts1 \<and> mset parts1 = mset parts0 \<and>
      sorted_wrt (\<lambda>a b. sz_order a b \<le> 0) (map (view_bytes mem) parts1) \<and>
      Strs_sort mem malloc tm1 self1 False = Some (Inr (), self2, tm2) \<and>
      Strs_parts self2 = Inr parts2 \<and>
      map (view_bytes mem) parts2 = map (view_bytes mem) parts1"
proof -
  from prepare_gives_reordered [OF wf nm m] obtain r where
    p: "prepare_strings_for_reordering malloc self = (Inr (), STRS_REORDERED r)"
    and c: "r_count r = length (r_parts r)" and n: "length (r_parts r) = Strs_len self"
    and p0: "Strs_parts self = Inr (r_parts r)"
    by blast
  let ?ps = "r_parts r"
  let ?ord = "sorted_order mem ?ps"
  let ?ps1 = "map ((!) ?ps) ?ord"
  let ?r1 = "r\<lparr>r_parts := ?ps1\<rparr>"
  let ?ord1 = "sorted_order mem ?ps1"
  let ?ps2 = "map ((!) ?ps1) ?ord1"
  let ?r2 = "?r1\<lparr>r_parts := ?ps2\<rparr>"
  have same: "Strs_order mem malloc temporary_memory self False =
        Strs_order mem malloc temporary_memory (STRS_REORDERED r) False"
      "Strs_sort mem malloc temporary_memory self False =
        Strs_sort mem malloc temporary_memory (STRS_REORDERED r) False"
    using Strs_sort_impl_after_prepare [OF p, of mem temporary_memory]
    by (simp_all add: Strs_order_def Strs_sort_def)
  from Strs_order_reordered [OF c tm m, of mem] obtain tm' where
    o: "Strs_order mem malloc temporary_memory self False = (Inr ?ord, STRS_REORDERED r, tm')"
    unfolding same by blast
  from Strs_sort_reordered [OF c tm m, of mem] obtain tm1 where
    s1: "Strs_sort mem malloc temporary_memory self False = Some (Inr (), STRS_REORDERED ?r1, tm1)"
    and t1: "sv_start tm1 \<noteq> 0"
    unfolding same by blast
  have c1: "r_count ?r1 = length (r_parts ?r1)" using c by (simp add: sorted_order_props)
  from Strs_sort_reordered [OF c1 t1 m, of mem] obtain tm2 where
    s2: "Strs_sort mem malloc tm1 (STRS_REORDERED ?r1) False = Some (Inr (), STRS_REORDERED ?r2, tm2)"
    by auto
  have c2: "r_count ?r2 = length (r_parts ?r2)" using c by (simp add: sorted_order_props)
  have p1: "Strs_parts (STRS_REORDERED ?r1) = Inr ?ps1"
    using Strs_parts_reordered [OF c1] by simp
  have p2: "Strs_parts (STRS_REORDERED ?r2) = Inr ?ps2"
    using Strs_parts_reordered [OF c2] by simp
  have m1: "mset ?ps1 = mset ?ps" by (rule mset_permuted) (rule sorted_order_props)
  have m2: "mset ?ps2 = mset ?ps1" by (rule mset_permuted) (rule sorted_order_props)
  have so1: "sorted (map (view_bytes mem) ?ps1)" by (rule sorted_order_props)
  have so2: "sorted (map (view_bytes mem) ?ps2)" by (rule sorted_order_props)
  have "mset (map (view_bytes mem) ?ps2) = mset (map (view_bytes mem) ?ps1)"
    using m2 by (metis mset_map)
  with so2 so1 have eq: "map (view_bytes mem) ?ps2 = map (view_bytes mem) ?ps1"
    by (rule sorted_mset_unique)
  have "length ?ord = Strs_len self" "mset ?ord = mset [0..<Strs_len self]"
    using n sorted_order_props(1,2) [of mem ?ps] by simp_all
  with o p0 s1 p1 m1 so1 s2 p2 eq show ?thesis
    unfolding sorted_wrt_sz_order by blast
qed


lemma cab_order:
  "fst (Strs_order cab_mem malloc_ok (PyInit_stringzilla malloc_ok) (STRS_CONSECUTIVE_32 abc_parts)
          False) = Inr [1, 2, 0]"
  by (simp add: Strs_order_def Strs_sort_impl_def prepare_strings_for_reordering_def
      convert_consecutive_def populate_def upt_rec str_at_offset_consecutive_32bit_def
      str_at_offset_consecutive_def reordered_of_def sz_sort_def PyInit_stringzilla_def
      malloc_ok_def view_bytes_def cab_mem_def abc_parts_def Let_def)

theorem sort_and_order_witness:
  "wf_Strs (STRS_CONSECUTIVE_32 abc_parts) \<and> \<not> is_multi_source (STRS_CONSECUTIVE_32 abc_parts) \<and>
   (\<forall>n. malloc_ok n \<noteq> 0) \<and> sv_start (PyInit_stringzilla malloc_ok) \<noteq> 0 \<and>
   fst (Strs_order cab_mem malloc_ok (PyInit_stringzilla malloc_ok) (STRS_CONSECUTIVE_32 abc_parts)
          False) = Inr [1, 2, 0] \<and>
   (\<exists>self1 tm1 parts1.
      Strs_sort cab_mem malloc_ok (PyInit_stringzilla malloc_ok) (STRS_CONSECUTIVE_32 abc_parts) False
        = Some (Inr (), self1, tm1) \<and>
      Strs_parts self1 = Inr parts1 \<and>
      sorted_wrt (\<lambda>a b. sz_order a b \<le> 0) (map (view_bytes cab_mem) parts1))"
proof -
  have h: "wf_Strs (STRS_CONSECUTIVE_32 abc_parts)" "\<not> is_multi_source (STRS_CONSECUTIVE_32 abc_parts)"
    "\<forall>n. malloc_ok n \<noteq> 0" "sv_start (PyInit_stringzilla malloc_ok) \<noteq> 0"
    by (simp_all add: wf_Strs_def is_multi_source_def abc_parts_def malloc_ok_def
        PyInit_stringzilla_def)
  from sort_and_order [OF h, of cab_mem]
  have "\<exists>self1 tm1 parts1.
      Strs_sort cab_mem malloc_ok (PyInit_stringzilla malloc_ok) (STRS_CONSECUTIVE_32 abc_parts) False
        = Some (Inr (), self1, tm1) \<and>
      Strs_parts self1 = Inr parts1 \<and>
      sorted_wrt (\<lambda>a b. sz_order a b \<le> 0) (map (view_bytes cab_mem) parts1)"
    by blast
  with h cab_order show ?thesis by blast
qed

section \<open>Reversal, shuffle and split away from the boundaries\<close>

text \<open>
  On an array of at least one element \<^verbatim>\<open>reverse_offsets\<close> reverses, and from an index
  inside the array the Fisher-Yates loop returns a rearrangement of the parts.
\<close>

lemma reverse_loop_nth:
  "j < length xs \<Longrightarrow> i \<le> Suc j \<Longrightarrow>
     \<exists>ys. reverse_loop i j xs = Inr ys \<and> length ys = length xs \<and>
       (\<forall>k<length xs. ys ! k = (if i \<le> k \<and> k \<le> j then xs ! (i + j - k) else xs ! k))"
proof (induction "j - i" arbitrary: i j xs rule: less_induct)
  case less
  show ?case
  proof (cases "i < j")
    case False
    then have "reverse_loop i j xs = Inr xs" by (subst reverse_loop.simps) simp
    moreover have "xs ! (i + j - k) = xs ! k" if "i \<le> k" "k \<le> j" for k
    proof -
      from that False have "i = k" "j = k" by simp_all
      then show ?thesis by simp
    qed
    ultimately show ?thesis by auto
  next
    case True
    let ?xs = "xs[i := xs ! j, j := xs ! i]"
    have step: "reverse_loop i j xs = reverse_loop (i + 1) (j - 1) ?xs"
      using True less.prems by (subst reverse_loop.simps) simp
    have "j - 1 - (i + 1) < j - i" "j - 1 < length ?xs" "i + 1 \<le> Suc (j - 1)"
      using True less.prems by simp_all
    from less.hyps [OF this] obtain ys where
      r: "reverse_loop (i + 1) (j - 1) ?xs = Inr ys" and l: "length ys = length ?xs"
      and n: "\<forall>k<length ?xs. ys ! k =
           (if i + 1 \<le> k \<and> k \<le> j - 1 then ?xs ! (i + 1 + (j - 1) - k) else ?xs ! k)"
      by blast
    have "ys ! k = (if i \<le> k \<and> k \<le> j then xs ! (i + j - k) else xs ! k)"
      if k: "k < length xs" for k
    proof -
      have yk: "ys ! k = (if i + 1 \<le> k \<and> k \<le> j - 1 then ?xs ! (i + j - k) else ?xs ! k)"
        using n k True by simp
      show ?thesis
      proof (cases "i + 1 \<le> k \<and> k \<le> j - 1")
        case inner: True
        then have ne: "i + j - k \<noteq> i" "i + j - k \<noteq> j" using True by linarith+
        have "ys ! k = ?xs ! (i + j - k)" using yk inner by (simp only: if_True simp_thms)
        also have "\<dots> = xs ! (i + j - k)" using ne by simp
        finally have "ys ! k = xs ! (i + j - k)" .
        moreover have "i \<le> k \<and> k \<le> j" using inner by linarith
        ultimately show ?thesis by simp
      next
        case outer: False
        have y: "ys ! k = ?xs ! k" using yk outer by (simp only: if_False)
        consider "k = i" | "k = j" | "k < i \<or> j < k" using outer by linarith
        then show ?thesis
        proof cases
          case 1
          then have "?xs ! k = xs ! j" using True less.prems by simp
          then show ?thesis using y 1 True by simp
        next
          case 2
          then have "?xs ! k = xs ! i" using True less.prems by simp
          then show ?thesis using y 2 True by simp
        next
          case 3
          then have "?xs ! k = xs ! k" using True by auto
          then show ?thesis using y 3 True by auto
        qed
      qed
    qed
    then show ?thesis using step r l by simp
  qed
qed

lemma reverse_offsets_rev:
  assumes "xs \<noteq> []" and "length xs < 2 ^ 64"
  shows "reverse_offsets xs (length xs) = Inr (rev xs)"
proof -
  let ?n = "length xs"
  have n: "0 < ?n" using assms(1) by simp
  then have j: "(?n + 2 ^ 64 - 1) mod 2 ^ 64 = ?n - 1"
    using assms(2) by (simp add: mod_if)
  from reverse_loop_nth [of "?n - 1" xs 0] n obtain ys where
    r: "reverse_loop 0 (?n - 1) xs = Inr ys" and l: "length ys = ?n"
    and k: "\<forall>k<?n. ys ! k = (if 0 \<le> k \<and> k \<le> ?n - 1 then xs ! (0 + (?n - 1) - k) else xs ! k)"
    by auto
  have "ys = rev xs"
  proof (rule nth_equalityI)
    show "length ys = length (rev xs)" using l by simp
  next
    fix i assume "i < length ys"
    then have i: "i < ?n" using l by simp
    then have "i \<le> ?n - 1" by simp
    with k i have "ys ! i = xs ! (?n - 1 - i)" by simp
    then show "ys ! i = rev xs ! i" using i by (simp add: rev_nth)
  qed
  then show ?thesis using r j by (simp add: reverse_offsets_def)
qed

lemma shuffle_loop_permutes:
  "i < length parts \<Longrightarrow> length parts < 2 ^ 64 \<Longrightarrow>
     \<exists>ps g'. shuffle_loop rand i g parts = (Inr ps, g') \<and> mset ps = mset parts"
proof (induction i arbitrary: g parts)
  case 0
  then show ?case by (subst shuffle_loop.simps) simp
next
  case (Suc i)
  obtain r g' where rg: "rand g = (r, g')" by (cases "rand g")
  let ?j = "r mod (Suc i + 1)"
  let ?ps = "parts[Suc i := parts ! ?j, ?j := parts ! Suc i]"
  have d: "(Suc i + 1) mod 2 ^ 64 = Suc i + 1"
    using Suc.prems by simp
  have j: "?j < length parts"
  proof -
    have "?j < Suc i + 1" by (rule mod_less_divisor) simp
    moreover have "Suc i + 1 \<le> length parts" using Suc.prems by simp
    ultimately show ?thesis by (rule less_le_trans)
  qed
  have step: "shuffle_loop rand (Suc i) g parts = shuffle_loop rand i g' ?ps"
    using rg d j Suc.prems
    by (subst shuffle_loop.simps) (simp add: Let_def del: mod_Suc_eq mod_Suc)
  have "i < length ?ps" "length ?ps < 2 ^ 64" using Suc.prems by simp_all
  from Suc.IH [OF this] obtain ps g'' where
    "shuffle_loop rand i g' ?ps = (Inr ps, g'')" "mset ps = mset ?ps"
    by blast
  moreover have "mset ?ps = mset parts"
    using j Suc.prems by (simp add: mset_swap)
  ultimately show ?case using step by simp
qed

text \<open>
  For a collection with at least one part \<^verbatim>\<open>order(reverse=True)\<close> is the reversal
  of \<^verbatim>\<open>order(reverse=False)\<close>.
\<close>

lemma Strs_order_reverse_nonempty:
  assumes wf: "wf_Strs self" and nm: "\<not> is_multi_source self"
    and m: "\<forall>n. malloc n \<noteq> 0" and tm: "sv_start temporary_memory \<noteq> 0"
    and n: "0 < Strs_len self" "Strs_len self < 2 ^ 64"
  shows "\<exists>order self' tm'.
      Strs_order mem malloc temporary_memory self False = (Inr order, self', tm') \<and>
      Strs_order mem malloc temporary_memory self True = (Inr (rev order), self', tm')"
proof -
  from prepare_gives_reordered [OF wf nm m] obtain r where
    p: "prepare_strings_for_reordering malloc self = (Inr (), STRS_REORDERED r)"
    and c: "r_count r = length (r_parts r)" and l: "length (r_parts r) = Strs_len self"
    by blast
  let ?ord = "sorted_order mem (r_parts r)"
  from Strs_sort_impl_reordered [OF c tm m, of mem] obtain tm' where
    i: "Strs_sort_impl mem malloc temporary_memory self =
       (Inr (r_parts r, ?ord, length (r_parts r)), STRS_REORDERED r, tm')"
    unfolding Strs_sort_impl_after_prepare [OF p] by blast
  have lo: "length ?ord = length (r_parts r)" by (rule sorted_order_props)
  then have "?ord \<noteq> []" "length ?ord < 2 ^ 64" using n l by auto
  from reverse_offsets_rev [OF this]
  have "reverse_offsets ?ord (length (r_parts r)) = Inr (rev ?ord)" using lo by simp
  then show ?thesis using i lo by (simp add: Strs_order_def)
qed

text \<open>
  For a collection with at least one part \<^verbatim>\<open>shuffle\<close> returns, the parts after it
  are a rearrangement of the parts before, and the outcome depends on the seed alone, not
  on the state the generator was in.
\<close>

lemma Strs_shuffle_permutes:
  assumes wf: "wf_Strs self" and nm: "\<not> is_multi_source self"
    and m: "\<forall>n. malloc n \<noteq> 0" and n: "0 < Strs_len self" "Strs_len self < 2 ^ 64"
  shows "\<exists>parts0 self' g' parts'.
      Strs_parts self = Inr parts0 \<and>
      Strs_shuffle malloc srand rand g0 self seed = (Inr (), self', g') \<and>
      Strs_parts self' = Inr parts' \<and> mset parts' = mset parts0 \<and>
      Strs_shuffle malloc srand rand g1 self seed = (Inr (), self', g')"
proof -
  from prepare_gives_reordered [OF wf nm m] obtain r where
    p: "prepare_strings_for_reordering malloc self = (Inr (), STRS_REORDERED r)"
    and c: "r_count r = length (r_parts r)" and l: "length (r_parts r) = Strs_len self"
    and p0: "Strs_parts self = Inr (r_parts r)"
    by blast
  have j: "(r_count r + 2 ^ 64 - 1) mod 2 ^ 64 = length (r_parts r) - 1"
    using c l n by (simp add: mod_if)
  have "length (r_parts r) - 1 < length (r_parts r)" "length (r_parts r) < 2 ^ 64"
    using l n by simp_all
  from shuffle_loop_permutes [OF this, of rand "srand (seed mod 2 ^ 32)"] obtain ps g' where
    s: "shuffle_loop rand (length (r_parts r) - 1) (srand (seed mod 2 ^ 32)) (r_parts r)
          = (Inr ps, g')"
    and ms: "mset ps = mset (r_parts r)"
    by blast
  have "length ps = length (r_parts r)" using ms by (rule mset_eq_length)
  then have "Strs_parts (STRS_REORDERED (r\<lparr>r_parts := ps\<rparr>)) = Inr ps"
    using Strs_parts_reordered [of "r\<lparr>r_parts := ps\<rparr>"] c by simp
  moreover have "Strs_shuffle malloc srand rand g self seed
      = (Inr (), STRS_REORDERED (r\<lparr>r_parts := ps\<rparr>), g')" for g
    using p s j by (simp add: Strs_shuffle_def reordered_of_def with_parts_def Let_def)
  ultimately show ?thesis using p0 ms by blast
qed

text \<open>
  An empty text with a non-empty separator and a positive \<open>maxsplit\<close> splits into
  exactly one part, which is empty.
\<close>

lemma split_empty_source:
  assumes "sv_length text = 0" and "0 < sv_length separator" and "\<forall>n. malloc n \<noteq> 0"
    and "0 < maxsplit mod 2 ^ 64"
  shows "\<exists>strs res'.
      Str_split_impl mem malloc res prnt text separator keepseparator maxsplit = (Inr strs, res') \<and>
      Strs_len strs = 1 \<and>
      Strs_parts strs = Inr [\<lparr>sv_start = sv_start text, sv_length = 0\<rparr>]"
proof -
  let ?sep = "view_bytes mem separator"
  let ?limit = "nat (maxsplit mod 2 ^ 64)"
  have tx: "view_bytes mem text = []" using assms(1) by (simp add: view_bytes_def)
  have lim: "0 < ?limit" using assms(4) by simp
  have sep: "?sep \<noteq> []" using assms(2) by (metis view_bytes_length length_0_conv less_numeral_extra(3))
  have "split_loop malloc [] ?sep ?limit 4 0 (None :: 32 word list option) 0 r
      = (Inr (Some [0]), r\<lparr>live_buffers := live_buffers r + 1\<rparr>)" for r
  proof -
    have ok: "\<not> alloc_fails malloc 4 0 (None :: 32 word list option)"
      using assms(3) by (simp add: alloc_fails_def)
    have a: "(0::nat) \<le> length ([] :: byte list)"
      "length (written (None :: 32 word list option)) < ?limit"
      using lim by (simp_all add: written_def)
    have "\<not> (0 + offset_in_remaining [] ?sep 0 + length ?sep \<le> length ([] :: byte list) \<and>
        length (written (Some (written (None :: 32 word list option)
          @ [word_of_nat (next_offset [] ?sep 0)]))) < ?limit)"
      using assms(2) by simp
    from split_loop_stop [OF this] show ?thesis
      unfolding split_loop_step [OF a ok]
      by (simp add: written_def next_offset_def offset_in_remaining_def)
  qed
  then show ?thesis
    using assms(1) tx
    by (simp add: Str_split_impl_def Let_def UINT32_MAX_def Strs_len_def Strs_parts_def
        str_at_offset_getter_def populate_def str_at_offset_consecutive_32bit_def
        str_at_offset_consecutive_def)
qed

text \<open>
  The empty slice at the end of a collection is an empty collection that starts where the
  text ends.
\<close>

lemma slice_empty_tail:
  "Strs_subscript malloc_ok (STRS_CONSECUTIVE_32 abc_parts) 3 3 =
     Inr (STRS_CONSECUTIVE_32 \<lparr>c_count = 0, c_separator_length = 1, c_parent = 7, c_start = 5,
            c_end_offsets = []\<rparr>)"
  by (simp add: Strs_subscript_def consecutive_logic_def Strs_len_def abc_parts_def Let_def)

section \<open>Behaviour at the boundaries\<close>

text \<open>
  C1. The collection \<^verbatim>\<open>a,b,c\<close> splits into has the parts \<^verbatim>\<open>a\<close>, \<^verbatim>\<open>b\<close>,
  \<^verbatim>\<open>c\<close>. Its slice \<open>[0, 2)\<close> has two parts, but the second one is not the second
  part of the original: it has length 2, the separator included, because the accessor
  trims the separator from every part but the last and the copied offset array ends with
  a part that was not the last.
\<close>

theorem slice_last_part_keeps_separator:
  "fst (Str_split_impl abc_mem malloc_ok initial_resources 7 abc_text comma False PY_SSIZE_T_MAX)
       = Inr (STRS_CONSECUTIVE_32 abc_parts) \<and>
     Strs_subscript malloc_ok (STRS_CONSECUTIVE_32 abc_parts) 0 2 = Inr (STRS_CONSECUTIVE_32 ab_slice) \<and>
     c_count ab_slice = 2 \<and>
     str_at_offset_consecutive_32bit abc_parts 1 (c_count abc_parts) = Inr (7, \<lparr>sv_start = 2, sv_length = 1\<rparr>) \<and>
     str_at_offset_consecutive_32bit ab_slice 1 (c_count ab_slice) = Inr (7, \<lparr>sv_start = 2, sv_length = 2\<rparr>)"
  by (simp add: split_abc malloc_ok_def Strs_subscript_def consecutive_logic_def Strs_len_def abc_parts_def ab_slice_def
      str_at_offset_consecutive_32bit_def str_at_offset_consecutive_def Let_def upt_rec)

text \<open>
  C2. With \<open>maxsplit = 0\<close> the loop of \<^verbatim>\<open>Str_split_\<close> is never entered: whatever the
  text, the collection returned has no part at all.
\<close>

theorem split_maxsplit_zero_no_parts:
  "\<exists>strs res'. Str_split_impl mem malloc res prnt text separator keepseparator 0 = (Inr strs, res')
      \<and> Strs_len strs = 0"
  by (simp add: Str_split_impl_def split_loop.simps [of _ _ _ 0] Strs_len_def Let_def)

lemma shuffle_loop_wrapped:
  "shuffle_loop rand 18446744073709551615 g parts = (Inl DivisionByZero, snd (rand g))"
  by (subst shuffle_loop.simps) (simp split: prod.splits)

text \<open>
  C10. On a collection of zero parts the loop of \<^verbatim>\<open>Strs_shuffle\<close> starts at
  \<open>count - 1 = 2 ^ 64 - 1\<close>, draws a number and divides it by \<open>i + 1 = 0\<close>.
\<close>

theorem shuffle_zero_parts_divides_by_zero:
  "Strs_shuffle malloc srand rand g0 (STRS_REORDERED \<lparr>r_count = 0, r_parent = p, r_parts = []\<rparr>) seed =
     (Inl DivisionByZero, STRS_REORDERED \<lparr>r_count = 0, r_parent = p, r_parts = []\<rparr>,
      snd (rand (srand (seed mod 2 ^ 32))))"
  by (simp add: Strs_shuffle_def prepare_strings_for_reordering_def reordered_of_def
      shuffle_loop_wrapped)

text \<open>
  C8. The same on the empty collection in a consecutive layout (an empty slice): the
  conversion succeeds and the shuffle then divides by zero, for every seed.
\<close>

theorem shuffle_empty_slice_fails:
  "fst (Strs_shuffle malloc_ok srand rand g0
     (STRS_CONSECUTIVE_32 \<lparr>c_count = 0, c_separator_length = 1, c_parent = 7, c_start = 0,
           c_end_offsets = []\<rparr>) seed) = Inl DivisionByZero"
  by (simp add: Strs_shuffle_def prepare_strings_for_reordering_def reordered_of_def
      convert_consecutive_def populate_def malloc_ok_def shuffle_loop_wrapped)

text \<open>
  C7. On a collection of zero parts \<^verbatim>\<open>Strs_order\<close> returns the empty tuple without
  \<open>reverse\<close>, but with \<open>reverse\<close> the loop of \<^verbatim>\<open>reverse_offsets\<close> starts with
  \<open>j = length - 1 = 2 ^ 64 - 1\<close> and swaps outside the array.
\<close>

theorem order_reverse_zero_parts_faults:
  "fst (Strs_order mem malloc_ok (PyInit_stringzilla malloc_ok) (STRS_REORDERED no_parts) True)
      = Inl MemoryFault \<and>
   fst (Strs_order mem malloc_ok (PyInit_stringzilla malloc_ok) (STRS_REORDERED no_parts) False)
      = Inr []"
  by (simp add: Strs_order_def Strs_sort_impl_def prepare_strings_for_reordering_def
      reordered_of_def no_parts_def PyInit_stringzilla_def sz_sort_def reverse_offsets_def
      malloc_ok_def reverse_loop.simps [of 0])

end
